theory Spec2Isabelle
  imports Main "HOL-Library.Word" "HOL-Library.Multiset"
begin

unbundle bit_operations_syntax

section \<open>Values and the rendered tree\<close>

text \<open>
  The values bound to \<open>modelValue\<close> and to an option's \<open>value\<close> prop are JavaScript
  values. The code compares them with \<open>===\<close> only: primitives by value, objects by
  reference (an object is its address here), and \<open>NaN\<close> differs from itself.
\<close>

datatype jsval =
    Undefined
  | Null
  | Bool bool
  | Num int
  | NaN
  | Str string
  | Obj nat

fun strict_eq :: "jsval \<Rightarrow> jsval \<Rightarrow> bool" where
  "strict_eq NaN _ = False"
| "strict_eq _ NaN = False"
| "strict_eq a b = (a = b)"

text \<open>
  An element of the rendered tree: its identity (a handle, what \<open>===\<close> on two
  elements compares), its attributes in the order they were set, and its child elements
  in document order.
\<close>

datatype element = Element (handle: nat) (attrs: "(string \<times> string) list") (children: "element list")

definition getAttribute :: "element \<Rightarrow> string \<Rightarrow> string option" where
  "getAttribute node name = map_of (attrs node) name"

definition hasAttribute :: "element \<Rightarrow> string \<Rightarrow> bool" where
  "hasAttribute node name = (map_of (attrs node) name \<noteq> None)"

fun update_attr :: "string \<Rightarrow> string \<Rightarrow> (string \<times> string) list \<Rightarrow> (string \<times> string) list" where
  "update_attr name v [] = [(name, v)]"
| "update_attr name v ((k, w) # kvs) =
     (if k = name then (k, v) # kvs else (k, w) # update_attr name v kvs)"

definition setAttribute :: "string \<Rightarrow> string \<Rightarrow> element \<Rightarrow> element" where
  "setAttribute name v node = Element (handle node) (update_attr name v (attrs node)) (children node)"

text \<open>The descendants of an element in document order (preorder), the element itself excluded.\<close>

fun descendants :: "element \<Rightarrow> element list" where
  "descendants (Element h a cs) = concat (map (\<lambda>c. c # descendants c) cs)"

text \<open>\<open>container.contains(target)\<close>: the target is the container or one of its descendants.\<close>

definition contains :: "element \<Rightarrow> nat \<Rightarrow> bool" where
  "contains container target = (target \<in> set (map handle (container # descendants container)))"

section \<open>The group controller\<close>

text \<open>
  An entry of the \<open>options\<close> list, as the reactive array hands it out (its refs
  unwrapped): the option's id, its element (\<open>null\<close> before mount) and the current value
  of its \<open>value\<close> prop.
\<close>

record radio_option =
  option_id :: string
  element :: "nat option"
  propsRef :: jsval

text \<open>
  The state the group's closures share: the props \<open>modelValue\<close> and \<open>disabled\<close>, the
  container ref, the options list; and what they act on outside: the
  \<open>update:modelValue\<close> events emitted so far (oldest first), the document's active
  element and the set of elements on which the platform's \<open>focus()\<close> succeeds.
\<close>

record group =
  modelValue :: jsval
  disabled :: bool
  radioGroupRef :: "element option"
  options :: "radio_option list"
  emitted :: "jsval list"
  activeElement :: "nat option"
  focusable :: "nat set"

datatype js_error = JsError string | JsTypeError

text \<open>
  \<open>useRadioGroupContext\<close>: \<open>inject(RadioGroupContext, null)\<close> is the second argument
  here (\<open>None\<close> is \<open>null\<close>: no enclosing group provided a context).
\<close>

definition useRadioGroupContext :: "string \<Rightarrow> 'ctx option \<Rightarrow> js_error + 'ctx" where
  "useRadioGroupContext component injected =
     (case injected of
        None \<Rightarrow> Inl (JsError (''<'' @ component @ '' /> is missing a parent <RadioGroup /> component.''))
      | Some context \<Rightarrow> Inr context)"

definition emit :: "jsval \<Rightarrow> group \<Rightarrow> group" where
  "emit v g = g\<lparr>emitted := emitted g @ [v]\<rparr>"

definition change :: "jsval \<Rightarrow> group \<Rightarrow> group" where
  "change nextValue g =
     (if disabled g then g
      else if strict_eq (modelValue g) nextValue then g
      else emit nextValue g)"

subsection \<open>Registration\<close>

text \<open>
  \<open>querySelectorAll('[id^="headlessui-radiogroup-option-"]')\<close>: the descendants, in
  document order, that have an \<open>id\<close> attribute starting with the prefix.
\<close>

definition option_prefix :: string where
  "option_prefix = ''headlessui-radiogroup-option-''"

definition starts_with :: "string \<Rightarrow> string \<Rightarrow> bool" where
  "starts_with p s = (take (length p) s = p)"

definition matches_option_id :: "element \<Rightarrow> bool" where
  "matches_option_id node =
     (case getAttribute node ''id'' of None \<Rightarrow> False | Some i \<Rightarrow> starts_with option_prefix i)"

definition querySelectorAll :: "element \<Rightarrow> element list" where
  "querySelectorAll container = filter matches_option_id (descendants container)"

text \<open>\<open>element.id\<close>: the \<open>id\<close> attribute, the empty string when there is none.\<close>

definition element_id :: "element \<Rightarrow> string" where
  "element_id node = (case getAttribute node ''id'' of None \<Rightarrow> [] | Some i \<Rightarrow> i)"

text \<open>
  The \<open>reduce\<close> building \<open>orderMap\<close>: each scanned element's id is assigned its scan
  index; \<open>Object.assign\<close> lets a later element overwrite an earlier one of the same id.
\<close>

definition orderMap :: "element list \<Rightarrow> (string \<rightharpoonup> nat)" where
  "orderMap scanned =
     fold (\<lambda>(index, node) lookup. lookup(element_id node \<mapsto> index)) (enumerate 0 scanned) Map.empty"

text \<open>
  The comparator \<open>orderMap[a.id] - orderMap[z.id]\<close>: a number, or \<open>NaN\<close> (\<open>None\<close>)
  when one of the ids is not in the map.
\<close>

definition comparator :: "(string \<rightharpoonup> nat) \<Rightarrow> radio_option \<Rightarrow> radio_option \<Rightarrow> int option" where
  "comparator lookup a z =
     (case (lookup (option_id a), lookup (option_id z)) of
        (Some i, Some j) \<Rightarrow> Some (int i - int j)
      | _ \<Rightarrow> None)"

text \<open>
  \<open>Array.prototype.sort\<close> with a comparator: \<open>a\<close> goes after \<open>z\<close> when the
  comparator's result is positive, a \<open>NaN\<close> result counts as \<open>0\<close>, and elements that
  compare equal keep their order (the sort is stable). For a consistent comparator that
  fixes the result, which this insertion sort computes; for an inconsistent one the
  language leaves the order to the implementation, and the model is the insertion sort
  that engines run on an array this short.
\<close>

definition goes_after :: "int option \<Rightarrow> bool" where
  "goes_after v = (case v of None \<Rightarrow> False | Some d \<Rightarrow> d > 0)"

fun insert_sorted :: "('a \<Rightarrow> 'a \<Rightarrow> int option) \<Rightarrow> 'a \<Rightarrow> 'a list \<Rightarrow> 'a list" where
  "insert_sorted cmp x [] = [x]"
| "insert_sorted cmp x (y # ys) =
     (if goes_after (cmp x y) then y # insert_sorted cmp x ys else x # y # ys)"

definition array_sort :: "('a \<Rightarrow> 'a \<Rightarrow> int option) \<Rightarrow> 'a list \<Rightarrow> 'a list" where
  "array_sort cmp xs = foldr (insert_sorted cmp) xs []"

text \<open>
  \<open>registerOption\<close>, returning the error thrown (if any) and the state it leaves. With
  a \<open>null\<close> container the optional chain gives \<open>undefined\<close>, and
  \<open>Array.from(undefined)\<close> throws a TypeError before anything is pushed.
\<close>

definition registerOption :: "radio_option \<Rightarrow> group \<Rightarrow> js_error option \<times> group" where
  "registerOption action g =
     (case radioGroupRef g of
        None \<Rightarrow> (Some JsTypeError, g)
      | Some container \<Rightarrow>
          (let lookup = orderMap (querySelectorAll container)
           in (None, g\<lparr>options := array_sort (comparator lookup) (options g @ [action])\<rparr>)))"

text \<open>\<open>findIndex\<close> (\<open>-1\<close> when nothing matches) and \<open>splice(idx, 1)\<close>.\<close>

fun findIndex :: "('a \<Rightarrow> bool) \<Rightarrow> 'a list \<Rightarrow> int" where
  "findIndex P [] = - 1"
| "findIndex P (x # xs) =
     (if P x then 0 else (let i = findIndex P xs in if i = - 1 then - 1 else i + 1))"

definition splice1 :: "nat \<Rightarrow> 'a list \<Rightarrow> 'a list" where
  "splice1 idx xs = take idx xs @ drop (Suc idx) xs"

definition unregisterOption :: "string \<Rightarrow> group \<Rightarrow> group" where
  "unregisterOption i g =
     (let idx = findIndex (\<lambda>radio. option_id radio = i) (options g)
      in if idx = - 1 then g else g\<lparr>options := splice1 (nat idx) (options g)\<rparr>)"

subsection \<open>Role normalization\<close>

datatype NodeFilter = FILTER_ACCEPT | FILTER_REJECT | FILTER_SKIP

definition acceptNode :: "element \<Rightarrow> NodeFilter" where
  "acceptNode node =
     (if getAttribute node ''role'' = Some ''radio'' then FILTER_REJECT
      else if hasAttribute node ''role'' then FILTER_SKIP
      else FILTER_ACCEPT)"

text \<open>
  The loop \<open>while (walker.nextNode()) currentNode.setAttribute('role', 'none')\<close>, seen
  from a node the walker reaches. A TreeWalker goes through the descendants of its root in
  document order; a node the filter rejects is passed over with its whole subtree, a node
  the filter skips is passed over but its children are visited, and an accepted node is
  returned (here: tagged) and its children are visited next. Tagging a node does not
  change what the filter answers on any other node.
\<close>

fun walk :: "element \<Rightarrow> element" where
  "walk (Element h a cs) =
     (if acceptNode (Element h a cs) = FILTER_REJECT then Element h a cs
      else if acceptNode (Element h a cs) = FILTER_SKIP then Element h a (map walk cs)
      else setAttribute ''role'' ''none'' (Element h a (map walk cs)))"

text \<open>The effect's body: nothing without a container; the root itself is never visited.\<close>

definition normalizeRoles :: "element \<Rightarrow> element" where
  "normalizeRoles container =
     Element (handle container) (attrs container) (map walk (children container))"

definition watchEffect :: "group \<Rightarrow> group" where
  "watchEffect g =
     (case radioGroupRef g of
        None \<Rightarrow> g
      | Some container \<Rightarrow> g\<lparr>radioGroupRef := Some (normalizeRoles container)\<rparr>)"

subsection \<open>Keyboard navigation\<close>

text \<open>The keys the handler distinguishes; every other key is \<open>OtherKey\<close>.\<close>

datatype Keys = ArrowLeft | ArrowUp | ArrowRight | ArrowDown | Space | OtherKey string

record keyboard_event =
  key :: Keys
  target :: nat
  defaultPrevented :: bool
  propagationStopped :: bool

definition preventDefault :: "keyboard_event \<Rightarrow> keyboard_event" where
  "preventDefault event = event\<lparr>defaultPrevented := True\<rparr>"

definition stopPropagation :: "keyboard_event \<Rightarrow> keyboard_event" where
  "stopPropagation event = event\<lparr>propagationStopped := True\<rparr>"

text \<open>The two calls of \<open>focusIn\<close> pass \<open>Focus.Previous | Focus.WrapAround\<close> and
  \<open>Focus.Next | Focus.WrapAround\<close>.\<close>

datatype Focus = Previous_WrapAround | Next_WrapAround

datatype FocusResult = Success | Failure

fun index_of :: "'a \<Rightarrow> 'a list \<Rightarrow> nat option" where
  "index_of x [] = None"
| "index_of x (y # ys) = (if x = y then Some 0 else map_option Suc (index_of x ys))"

text \<open>The entries a scan from position \<open>k\<close> meets, in the order it meets them: every
  other entry once, going round the end of the list.\<close>

fun scan_order :: "Focus \<Rightarrow> nat \<Rightarrow> 'a list \<Rightarrow> 'a list" where
  "scan_order Next_WrapAround k xs = drop (Suc k) xs @ take k xs"
| "scan_order Previous_WrapAround k xs = rev (take k xs) @ rev (drop (Suc k) xs)"

definition eligible :: "group \<Rightarrow> nat option \<Rightarrow> bool" where
  "eligible g entry = (case entry of None \<Rightarrow> False | Some e \<Rightarrow> e \<in> focusable g)"

text \<open>
  Modelled from the spec: \<open>focusIn\<close> of \<open>utils/focus-management\<close>, which is not among
  the sources. The spec (4.2): "scan the ordered, focusable option list backward from the
  currently focused entry, wrapping from the first to the last; move focus to the first
  eligible candidate found", Next "symmetric, wrapping last to first", and "if no
  eligible candidate exists in the scan direction, the navigator performs no state change
  (failure is silent, not reported)". An entry is eligible when it is an element the
  platform can focus. The spec does not say where a scan starts when no entry of the list
  holds the focus; the model reports failure then and nothing below relies on it.
\<close>

definition focusIn :: "nat option list \<Rightarrow> Focus \<Rightarrow> group \<Rightarrow> FocusResult \<times> group" where
  "focusIn elements focus g =
     (case activeElement g of
        None \<Rightarrow> (Failure, g)
      | Some active \<Rightarrow>
          (case index_of (Some active) elements of
             None \<Rightarrow> (Failure, g)
           | Some k \<Rightarrow>
               (case find (eligible g) (scan_order focus k elements) of
                  None \<Rightarrow> (Failure, g)
                | Some next \<Rightarrow> (Success, g\<lparr>activeElement := next\<rparr>))))"

text \<open>\<open>options.value.find(option => option.element === document.activeElement)\<close>.\<close>

definition activeOption :: "group \<Rightarrow> radio_option option" where
  "activeOption g = find (\<lambda>option. element option = activeElement g) (options g)"

definition change_to_active :: "group \<Rightarrow> group" where
  "change_to_active g =
     (case activeOption g of None \<Rightarrow> g | Some option \<Rightarrow> change (propsRef option) g)"

text \<open>The body the two arrow cases share, up to the direction.\<close>

definition arrow_key :: "Focus \<Rightarrow> keyboard_event \<Rightarrow> group \<Rightarrow> keyboard_event \<times> group" where
  "arrow_key focus event g =
     (let event' = stopPropagation (preventDefault event);
          (result, g') = focusIn (map element (options g)) focus g
      in if result = Success then (event', change_to_active g') else (event', g'))"

definition keydown :: "keyboard_event \<Rightarrow> group \<Rightarrow> keyboard_event \<times> group" where
  "keydown event g =
     (case radioGroupRef g of
        None \<Rightarrow> (event, g)
      | Some container \<Rightarrow>
          if \<not> contains container (target event) then (event, g)
          else (case key event of
                  ArrowLeft \<Rightarrow> arrow_key Previous_WrapAround event g
                | ArrowUp \<Rightarrow> arrow_key Previous_WrapAround event g
                | ArrowRight \<Rightarrow> arrow_key Next_WrapAround event g
                | ArrowDown \<Rightarrow> arrow_key Next_WrapAround event g
                | Space \<Rightarrow> (stopPropagation (preventDefault event), change_to_active g)
                | OtherKey _ \<Rightarrow> (event, g)))"

subsection \<open>An option\<close>

text \<open>\<open>enum OptionState\<close>: bit flags, combined with the 32-bit operators of the language.\<close>

definition Empty :: "32 word" where
  "Empty = push_bit 0 1"

definition Active :: "32 word" where
  "Active = push_bit 1 1"

text \<open>What an option's \<open>setup\<close> holds: its id, its \<open>value\<close> prop, its element ref and
  its local state.\<close>

record option_node =
  node_id :: string
  props_value :: jsval
  optionRef :: "nat option"
  state :: "32 word"

text \<open>\<open>HTMLElement.focus()\<close>: the element becomes the active element when the platform
  can focus it, and nothing happens otherwise.\<close>

definition focus :: "nat \<Rightarrow> group \<Rightarrow> group" where
  "focus e g = (if e \<in> focusable g then g\<lparr>activeElement := Some e\<rparr> else g)"

definition handleClick :: "option_node \<Rightarrow> group \<Rightarrow> option_node \<times> group" where
  "handleClick n g =
     (let v = props_value n
      in if strict_eq (modelValue g) v then (n, g)
         else (let n' = n\<lparr>state := state n OR Active\<rparr>;
                   g' = change v g
               in (n', case optionRef n of None \<Rightarrow> g' | Some e \<Rightarrow> focus e g')))"

definition handleFocus :: "option_node \<Rightarrow> option_node" where
  "handleFocus n = n\<lparr>state := state n OR Active\<rparr>"

definition handleBlur :: "option_node \<Rightarrow> option_node" where
  "handleBlur n = n\<lparr>state := state n AND NOT Active\<rparr>"

definition active :: "option_node \<Rightarrow> bool" where
  "active n = (state n AND Active \<noteq> 0)"

text \<open>The render function's \<open>firstRadio\<close>, \<open>checked\<close> and \<open>tabIndex\<close>, for the option
  of id \<open>this_id\<close> and value prop \<open>v\<close>.\<close>

definition firstRadio :: "group \<Rightarrow> string \<Rightarrow> bool" where
  "firstRadio g this_id = (case options g of [] \<Rightarrow> False | first # _ \<Rightarrow> option_id first = this_id)"

definition checked :: "group \<Rightarrow> jsval \<Rightarrow> bool" where
  "checked g v = strict_eq (modelValue g) v"

definition tabIndex :: "group \<Rightarrow> string \<Rightarrow> jsval \<Rightarrow> int" where
  "tabIndex g this_id v =
     (if checked g v then 0
      else if strict_eq (modelValue g) Undefined \<and> firstRadio g this_id then 0
      else - 1)"

text \<open>The registered options that sequential Tab navigation reaches.\<close>

definition tab_stops :: "group \<Rightarrow> radio_option list" where
  "tab_stops g = filter (\<lambda>option. tabIndex g (option_id option) (propsRef option) = 0) (options g)"

section \<open>A sample group\<close>

text \<open>
  A mounted group of three options A, B and C: B's element sits inside a wrapper element
  without a role, A's holds a child element, and A has the focus.
\<close>

definition sample_container :: element where
  "sample_container =
     Element 0 [(''id'', ''headlessui-radiogroup-1''), (''role'', ''radiogroup'')]
       [Element 1 [(''id'', ''headlessui-radiogroup-option-2''), (''role'', ''radio'')]
          [Element 5 [] []],
        Element 2 []
          [Element 3 [(''id'', ''headlessui-radiogroup-option-3''), (''role'', ''radio'')] []],
        Element 4 [(''id'', ''headlessui-radiogroup-option-4''), (''role'', ''radio'')] []]"

definition option_A :: radio_option where
  "option_A = \<lparr>option_id = ''headlessui-radiogroup-option-2'', element = Some 1, propsRef = Str ''a''\<rparr>"

definition option_B :: radio_option where
  "option_B = \<lparr>option_id = ''headlessui-radiogroup-option-3'', element = Some 3, propsRef = Str ''b''\<rparr>"

definition option_C :: radio_option where
  "option_C = \<lparr>option_id = ''headlessui-radiogroup-option-4'', element = Some 4, propsRef = Str ''c''\<rparr>"

definition sample_group :: group where
  "sample_group =
     \<lparr>modelValue = Undefined, disabled = False, radioGroupRef = Some sample_container,
      options = [option_A, option_B, option_C], emitted = [], activeElement = Some 1,
      focusable = {1, 3, 4}\<rparr>"

definition node_B :: option_node where
  "node_B = \<lparr>node_id = ''headlessui-radiogroup-option-3'', props_value = Str ''b'',
             optionRef = Some 3, state = Empty\<rparr>"

text \<open>The registered options that are checked.\<close>

definition checked_options :: "group \<Rightarrow> radio_option list" where
  "checked_options g = filter (\<lambda>option. checked g (propsRef option)) (options g)"

text \<open>The sample group bound to a value that no option has, and a group in which two
  options have the bound value.\<close>

definition unmatched_group :: group where
  "unmatched_group = sample_group\<lparr>modelValue := Str ''z''\<rparr>"

definition option_A2 :: radio_option where
  "option_A2 = \<lparr>option_id = ''headlessui-radiogroup-option-3'', element = Some 3, propsRef = Str ''a''\<rparr>"

definition twin_group :: group where
  "twin_group = sample_group\<lparr>modelValue := Str ''a'', options := [option_A, option_A2, option_C]\<rparr>"

text \<open>
  Descendants by position: \<open>node_at e p\<close> is the element reached from \<open>e\<close> by the
  child indices \<open>p\<close>. \<open>inside_option e p\<close> holds when an element strictly between
  \<open>e\<close> and that element has the role \<open>radio\<close>, that is, when the element lies inside
  an option element. A descendant is \<open>tagged\<close> when it declares no role and does not lie
  inside an option element.
\<close>

fun node_at :: "element \<Rightarrow> nat list \<Rightarrow> element option" where
  "node_at e [] = Some e"
| "node_at e (i # p) = (if i < length (children e) then node_at (children e ! i) p else None)"

fun inside_option :: "element \<Rightarrow> nat list \<Rightarrow> bool" where
  "inside_option e [] = False"
| "inside_option e (i # p) =
     (i < length (children e) \<and> p \<noteq> [] \<and>
      (getAttribute (children e ! i) ''role'' = Some ''radio'' \<or> inside_option (children e ! i) p))"

definition tagged :: "element \<Rightarrow> nat list \<Rightarrow> element \<Rightarrow> bool" where
  "tagged container p d = (\<not> hasAttribute d ''role'' \<and> \<not> inside_option container p)"

text \<open>A container whose only child declares the role \<open>group\<close> and holds an element
  without a role.\<close>

definition labelled_container :: element where
  "labelled_container =
     Element 0 [(''role'', ''radiogroup'')]
       [Element 1 [(''role'', ''group'')] [Element 2 [] []]]"

text \<open>
  What the registration claims speak of. An option is \<open>rendered\<close> in a container when
  its element is a descendant of the container and carries the option's id, an id of the
  option prefix (as the option's render function and \<open>setup\<close> make it). Its
  \<open>document_position\<close> is the place of its element among the container's descendants in
  document order. A container is \<open>well_formed\<close> when each of its descendants occurs once
  and the scanned ids are unique.
\<close>

definition rendered :: "element \<Rightarrow> radio_option \<Rightarrow> bool" where
  "rendered container option =
     (\<exists>node \<in> set (descendants container).
        element option = Some (handle node) \<and>
        getAttribute node ''id'' = Some (option_id option) \<and>
        starts_with option_prefix (option_id option))"

definition document_position :: "element \<Rightarrow> radio_option \<Rightarrow> nat option" where
  "document_position container option =
     index_of (element option) (map (\<lambda>node. Some (handle node)) (descendants container))"

definition in_document_order :: "element \<Rightarrow> radio_option list \<Rightarrow> bool" where
  "in_document_order container radios =
     sorted_wrt (\<lambda>a z. \<exists>i j. document_position container a = Some i \<and>
                            document_position container z = Some j \<and> i \<le> j) radios"

definition well_formed :: "element \<Rightarrow> bool" where
  "well_formed container =
     (distinct (map handle (descendants container)) \<and>
      distinct (map element_id (querySelectorAll container)))"

text \<open>
  A run of \<open>mounted\<close> hooks: each call of \<open>registerOption\<close> finds the container as it
  is rendered at that moment. \<open>calls_rendered registered calls\<close> says that, at each call,
  the container is well formed and the options registered so far and the new one are
  rendered in it.
\<close>

fun register_calls :: "(element \<times> radio_option) list \<Rightarrow> group \<Rightarrow> js_error option \<times> group" where
  "register_calls [] g = (None, g)"
| "register_calls ((container, action) # calls) g =
     (case registerOption action (g\<lparr>radioGroupRef := Some container\<rparr>) of
        (Some e, g') \<Rightarrow> (Some e, g')
      | (None, g') \<Rightarrow> register_calls calls g')"

fun calls_rendered :: "radio_option list \<Rightarrow> (element \<times> radio_option) list \<Rightarrow> bool" where
  "calls_rendered registered [] = True"
| "calls_rendered registered ((container, action) # calls) =
     (well_formed container \<and> list_all (rendered container) (action # registered) \<and>
      calls_rendered (action # registered) calls)"

text \<open>The options of the sample group mounting in the order C, A, B.\<close>

definition reversed_mount :: "(element \<times> radio_option) list" where
  "reversed_mount =
     [(sample_container, option_C), (sample_container, option_A), (sample_container, option_B)]"

text \<open>
  The sample group after an update that removed B's element from the tree and rendered
  the element of a new option D in front of A's: the elements are patched before the
  hooks run, so D's \<open>mounted\<close> hook finds B still in the options list.
\<close>

definition stale_container :: element where
  "stale_container =
     Element 0 [(''id'', ''headlessui-radiogroup-1''), (''role'', ''radiogroup'')]
       [Element 6 [(''id'', ''headlessui-radiogroup-option-5''), (''role'', ''radio'')] [],
        Element 1 [(''id'', ''headlessui-radiogroup-option-2''), (''role'', ''radio'')]
          [Element 5 [] []],
        Element 2 [] [],
        Element 4 [(''id'', ''headlessui-radiogroup-option-4''), (''role'', ''radio'')] []]"

definition option_D :: radio_option where
  "option_D = \<lparr>option_id = ''headlessui-radiogroup-option-5'', element = Some 6, propsRef = Str ''d''\<rparr>"

definition stale_group :: group where
  "stale_group = sample_group\<lparr>radioGroupRef := Some stale_container\<rparr>"

text \<open>
  What the keyboard claim speaks of: the entry \<open>d\<close> steps away from position \<open>k\<close> in
  the direction of the scan, going round the ends of the list; the direction an arrow key
  stands for; and the keys the handler has a case for.
\<close>

fun candidate :: "Focus \<Rightarrow> nat \<Rightarrow> nat \<Rightarrow> 'a list \<Rightarrow> 'a" where
  "candidate Next_WrapAround k d xs = xs ! ((k + d) mod length xs)"
| "candidate Previous_WrapAround k d xs = xs ! ((k + length xs - d) mod length xs)"

fun direction :: "Keys \<Rightarrow> Focus option" where
  "direction ArrowLeft = Some Previous_WrapAround"
| "direction ArrowUp = Some Previous_WrapAround"
| "direction ArrowRight = Some Next_WrapAround"
| "direction ArrowDown = Some Next_WrapAround"
| "direction _ = None"

fun handled :: "Keys \<Rightarrow> bool" where
  "handled (OtherKey _) = False"
| "handled _ = True"

text \<open>A key pressed on option A's element, and the sample group when the platform can
  focus no option but A.\<close>

definition sample_event :: "Keys \<Rightarrow> keyboard_event" where
  "sample_event k = \<lparr>key = k, target = 1, defaultPrevented = False, propagationStopped = False\<rparr>"

definition lone_group :: group where
  "lone_group = sample_group\<lparr>focusable := {1}\<rparr>"

section \<open>Selection changes\<close>

text \<open>
  C1. \<open>change v\<close> emits nothing when the group is disabled, nothing when \<open>v\<close> is
  \<open>===\<close> to the bound value, and otherwise exactly one \<open>update:modelValue\<close> event
  carrying \<open>v\<close>; in every case the bound value itself, and all the rest of the state, is
  left as it was.
\<close>

theorem change_emits:
  "(disabled g \<longrightarrow> change v g = g) \<and>
   (strict_eq (modelValue g) v \<longrightarrow> change v g = g) \<and>
   (\<not> disabled g \<and> \<not> strict_eq (modelValue g) v \<longrightarrow> emitted (change v g) = emitted g @ [v]) \<and>
   modelValue (change v g) = modelValue g \<and>
   change v g = g\<lparr>emitted := emitted (change v g)\<rparr>"
  by (simp add: change_def emit_def)

theorem change_emits_witness:
  "change (Str ''b'') (sample_group\<lparr>disabled := True\<rparr>) = sample_group\<lparr>disabled := True\<rparr> \<and>
   change (Str ''b'') (sample_group\<lparr>modelValue := Str ''b''\<rparr>) = sample_group\<lparr>modelValue := Str ''b''\<rparr> \<and>
   emitted (change (Str ''b'') sample_group) = [Str ''b'']"
proof -
  have d: "disabled (sample_group\<lparr>disabled := True\<rparr>)" by simp
  have e: "strict_eq (modelValue (sample_group\<lparr>modelValue := Str ''b''\<rparr>)) (Str ''b'')" by simp
  have n: "\<not> disabled sample_group \<and> \<not> strict_eq (modelValue sample_group) (Str ''b'')"
    by (simp add: sample_group_def)
  have m: "emitted sample_group = []" by (simp add: sample_group_def)
  show ?thesis
    using change_emits[of "sample_group\<lparr>disabled := True\<rparr>" "Str ''b''"]
      change_emits[of "sample_group\<lparr>modelValue := Str ''b''\<rparr>" "Str ''b''"]
      change_emits[of sample_group "Str ''b''"] d e n m
    by simp
qed

section \<open>Access to the controller\<close>

text \<open>
  C8. Without an enclosing group (the injected context is \<open>null\<close>)
  \<open>useRadioGroupContext\<close> throws an error whose message names the component; with one
  it returns the controller.
\<close>

theorem useRadioGroupContext_result:
  "useRadioGroupContext component (None :: 'ctx option) =
     Inl (JsError (''<'' @ component @ '' /> is missing a parent <RadioGroup /> component.'')) \<and>
   useRadioGroupContext component (Some context) = Inr context"
  by (simp add: useRadioGroupContext_def)

section \<open>Unregistration\<close>

lemma findIndex_nonneg: "findIndex P xs \<ge> - 1"
  by (induction xs) (auto simp: Let_def)

lemma findIndex_none: "findIndex P xs = - 1 \<longleftrightarrow> (\<forall>x \<in> set xs. \<not> P x)"
  proof (induction xs)
  case Nil
  then show ?case by simp
next
  case (Cons a xs)
  have "findIndex P xs \<ge> - 1" by (rule findIndex_nonneg)
  with Cons show ?case by (auto simp: Let_def)
qed


lemma findIndex_split:
  "findIndex P xs \<noteq> - 1 \<Longrightarrow>
   \<exists>ys x zs. xs = ys @ x # zs \<and> P x \<and> (\<forall>y \<in> set ys. \<not> P y) \<and> nat (findIndex P xs) = length ys"
proof (induction xs)
  case Nil
  then show ?case by simp
next
  case (Cons a xs)
  show ?case
  proof (cases "P a")
    case True
    then show ?thesis by (intro exI[of _ "[]"]) auto
  next
    case False
    with Cons.prems have ne: "findIndex P xs \<noteq> - 1" by (auto simp: Let_def split: if_splits)
    from Cons.IH[OF ne] obtain ys x zs where
      h: "xs = ys @ x # zs" "P x" "\<forall>y \<in> set ys. \<not> P y" "nat (findIndex P xs) = length ys" by blast
    have ge: "findIndex P xs \<ge> 0" using findIndex_nonneg[of P xs] ne by linarith
    have "nat (findIndex P (a # xs)) = length (a # ys)"
      using False ne h(4) ge by (simp add: Let_def nat_add_distrib)
    with h False show ?thesis
      by (intro exI[of _ "a # ys"] exI[of _ x] exI[of _ zs]) auto
  qed
qed

text \<open>
  C7. \<open>unregisterOption i\<close> leaves the state as it is when no option has the id \<open>i\<close>,
  and otherwise removes the first option of that id and nothing else. With ids unique in
  the list, as the data model has them, no option of that id remains, so a second call
  changes nothing. The function has no failing branch.
\<close>

theorem unregisterOption_removes:
  "(i \<notin> option_id ` set (options g) \<longrightarrow> unregisterOption i g = g) \<and>
   (i \<in> option_id ` set (options g) \<longrightarrow>
      (\<exists>before radio after.
         options g = before @ radio # after \<and> option_id radio = i \<and>
         i \<notin> option_id ` set before \<and>
         unregisterOption i g = g\<lparr>options := before @ after\<rparr>)) \<and>
   (distinct (map option_id (options g)) \<longrightarrow>
      i \<notin> option_id ` set (options (unregisterOption i g)) \<and>
      options (unregisterOption i g) = filter (\<lambda>radio. option_id radio \<noteq> i) (options g) \<and>
      unregisterOption i (unregisterOption i g) = unregisterOption i g)"
proof -
  let ?P = "\<lambda>radio. option_id radio = i"
  have absent: "unregisterOption i h = h" if "i \<notin> option_id ` set (options h)" for h
  proof -
    from that have "findIndex ?P (options h) = - 1" by (auto simp: findIndex_none)
    then show ?thesis by (simp add: unregisterOption_def)
  qed
  have present: "\<exists>before radio after.
         options g = before @ radio # after \<and> option_id radio = i \<and>
         i \<notin> option_id ` set before \<and>
         unregisterOption i g = g\<lparr>options := before @ after\<rparr>"
    if "i \<in> option_id ` set (options g)"
  proof -
    from that have ne: "findIndex ?P (options g) \<noteq> - 1" by (auto simp: findIndex_none)
    from findIndex_split[OF ne] obtain ys x zs where
      h: "options g = ys @ x # zs" "option_id x = i" "\<forall>y \<in> set ys. option_id y \<noteq> i"
         "nat (findIndex ?P (options g)) = length ys" by blast
    have "unregisterOption i g = g\<lparr>options := ys @ zs\<rparr>"
      using ne h(1,4) by (simp add: unregisterOption_def splice1_def)
    moreover have "i \<notin> option_id ` set ys" using h(3) by auto
    ultimately show ?thesis using h(1,2) by blast
  qed
  have dist: "i \<notin> option_id ` set (options (unregisterOption i g)) \<and>
      options (unregisterOption i g) = filter (\<lambda>radio. option_id radio \<noteq> i) (options g) \<and>
      unregisterOption i (unregisterOption i g) = unregisterOption i g"
    if d: "distinct (map option_id (options g))"
  proof (cases "i \<in> option_id ` set (options g)")
    case False
    then have "filter (\<lambda>radio. option_id radio \<noteq> i) (options g) = options g"
      by (auto simp: filter_id_conv)
    with False absent[of g] show ?thesis by simp
  next
    case True
    from present[OF True] obtain before radio after where
      h: "options g = before @ radio # after" "option_id radio = i"
         "i \<notin> option_id ` set before" "unregisterOption i g = g\<lparr>options := before @ after\<rparr>"
      by blast
    from d h(1,2) have na: "i \<notin> option_id ` set after" by auto
    have fb: "filter (\<lambda>radio. option_id radio \<noteq> i) before = before"
      using h(3) by (auto simp: filter_id_conv)
    have fa: "filter (\<lambda>radio. option_id radio \<noteq> i) after = after"
      using na by (auto simp: filter_id_conv)
    have f: "filter (\<lambda>radio. option_id radio \<noteq> i) (options g) = before @ after"
      using h(1,2) fb fa by simp
    have gone: "i \<notin> option_id ` set (options (unregisterOption i g))"
      using h(3,4) na by auto
    from absent[OF gone] gone f h(4) show ?thesis by simp
  qed
  from absent present dist show ?thesis by blast
qed

theorem unregisterOption_removes_witness:
  "unregisterOption ''headlessui-radiogroup-option-9'' sample_group = sample_group \<and>
   options (unregisterOption ''headlessui-radiogroup-option-3'' sample_group) = [option_A, option_C] \<and>
   unregisterOption ''headlessui-radiogroup-option-3''
     (unregisterOption ''headlessui-radiogroup-option-3'' sample_group) =
   unregisterOption ''headlessui-radiogroup-option-3'' sample_group"
proof -
  have o: "options sample_group = [option_A, option_B, option_C]"
    by (simp add: sample_group_def)
  have a: "''headlessui-radiogroup-option-9'' \<notin> option_id ` set (options sample_group)"
    by (simp add: o option_A_def option_B_def option_C_def)
  have d: "distinct (map option_id (options sample_group))"
    by (simp add: o option_A_def option_B_def option_C_def)
  have f: "filter (\<lambda>radio. option_id radio \<noteq> ''headlessui-radiogroup-option-3'') (options sample_group)
           = [option_A, option_C]"
    by (simp add: o option_A_def option_B_def option_C_def)
  show ?thesis
    using unregisterOption_removes[of "''headlessui-radiogroup-option-9''" sample_group]
      unregisterOption_removes[of "''headlessui-radiogroup-option-3''" sample_group] a d f
    by simp
qed

section \<open>Registration\<close>

text \<open>
  C10. Called while the container ref is \<open>null\<close>, \<open>registerOption\<close> throws a
  TypeError and leaves the state, the options list included, as it was.
\<close>

theorem registerOption_unmounted:
  "radioGroupRef g = None \<Longrightarrow> registerOption action g = (Some JsTypeError, g)"
  by (simp add: registerOption_def)

theorem registerOption_unmounted_witness:
  "radioGroupRef (sample_group\<lparr>radioGroupRef := None\<rparr>) = None \<and>
   registerOption option_A (sample_group\<lparr>radioGroupRef := None\<rparr>) =
     (Some JsTypeError, sample_group\<lparr>radioGroupRef := None\<rparr>)"
  using registerOption_unmounted[of "sample_group\<lparr>radioGroupRef := None\<rparr>" option_A] by simp

section \<open>Clicking an option\<close>

lemma active_or: "active (n\<lparr>state := state n OR Active\<rparr>)"
  by (simp add: active_def Active_def bit.conj_disj_distrib2)

text \<open>
  C5. \<open>handleClick\<close> does nothing when the option's value is \<open>===\<close> to the bound
  value. Otherwise it sets the Active flag of the option's local state, calls \<open>change\<close>
  with the option's value and then \<open>focus()\<close> on the option's element, which makes that
  element the active one whenever the platform can focus it.
\<close>

theorem handleClick_effect:
  "(strict_eq (modelValue g) (props_value n) \<longrightarrow> handleClick n g = (n, g)) \<and>
   (\<not> strict_eq (modelValue g) (props_value n) \<longrightarrow>
      fst (handleClick n g) = n\<lparr>state := state n OR Active\<rparr> \<and>
      active (fst (handleClick n g)) \<and>
      snd (handleClick n g) =
        (case optionRef n of None \<Rightarrow> change (props_value n) g
         | Some e \<Rightarrow> focus e (change (props_value n) g)) \<and>
      emitted (snd (handleClick n g)) = emitted (change (props_value n) g) \<and>
      (\<forall>e. optionRef n = Some e \<and> e \<in> focusable g \<longrightarrow>
           activeElement (snd (handleClick n g)) = Some e))"
proof -
  have foc: "focusable (change v g) = focusable g" for v
    by (simp add: change_def emit_def)
  have em: "emitted (focus e h) = emitted h" for e h
    by (simp add: focus_def)
  show ?thesis
    by (auto simp: handleClick_def Let_def active_or foc em focus_def split: option.splits)
qed

theorem handleClick_effect_witness:
  "handleClick (node_B\<lparr>props_value := Str ''b''\<rparr>) (sample_group\<lparr>modelValue := Str ''b''\<rparr>) =
     (node_B\<lparr>props_value := Str ''b''\<rparr>, sample_group\<lparr>modelValue := Str ''b''\<rparr>) \<and>
   active (fst (handleClick node_B sample_group)) \<and>
   emitted (snd (handleClick node_B sample_group)) = [Str ''b''] \<and>
   activeElement (snd (handleClick node_B sample_group)) = Some 3"
proof -
  have e: "strict_eq (modelValue (sample_group\<lparr>modelValue := Str ''b''\<rparr>))
             (props_value (node_B\<lparr>props_value := Str ''b''\<rparr>))" by simp
  have n: "\<not> strict_eq (modelValue sample_group) (props_value node_B)"
    by (simp add: sample_group_def node_B_def)
  have r: "optionRef node_B = Some 3 \<and> 3 \<in> focusable sample_group"
    by (simp add: sample_group_def node_B_def)
  have c: "emitted (change (props_value node_B) sample_group) = [Str ''b'']"
    by (simp add: change_def emit_def sample_group_def node_B_def)
  have same: "handleClick (node_B\<lparr>props_value := Str ''b''\<rparr>) (sample_group\<lparr>modelValue := Str ''b''\<rparr>) =
     (node_B\<lparr>props_value := Str ''b''\<rparr>, sample_group\<lparr>modelValue := Str ''b''\<rparr>)"
    using handleClick_effect[of "sample_group\<lparr>modelValue := Str ''b''\<rparr>" "node_B\<lparr>props_value := Str ''b''\<rparr>"] e
    by blast
  have other: "active (fst (handleClick node_B sample_group)) \<and>
      emitted (snd (handleClick node_B sample_group)) = emitted (change (props_value node_B) sample_group) \<and>
      activeElement (snd (handleClick node_B sample_group)) = Some 3"
    using handleClick_effect[of sample_group node_B] n r by blast
  from same other c show ?thesis by simp
qed

text \<open>
  C9. In a disabled group, a click on an option whose value differs from the bound value
  still sets the option's Active flag and moves the focus to its element, while the
  \<open>change\<close> it calls emits nothing.
\<close>

theorem handleClick_disabled:
  assumes "disabled g" and "\<not> strict_eq (modelValue g) (props_value n)"
    and "optionRef n = Some e" and "e \<in> focusable g"
  shows "active (fst (handleClick n g)) \<and>
         activeElement (snd (handleClick n g)) = Some e \<and>
         emitted (snd (handleClick n g)) = emitted g \<and>
         snd (handleClick n g) = g\<lparr>activeElement := Some e\<rparr>"
  using assms by (simp add: handleClick_def Let_def active_or change_def focus_def)

theorem handleClick_disabled_witness:
  "disabled (sample_group\<lparr>disabled := True\<rparr>) \<and>
   \<not> strict_eq (modelValue (sample_group\<lparr>disabled := True\<rparr>)) (props_value node_B) \<and>
   optionRef node_B = Some 3 \<and> 3 \<in> focusable (sample_group\<lparr>disabled := True\<rparr>) \<and>
   active (fst (handleClick node_B (sample_group\<lparr>disabled := True\<rparr>))) \<and>
   activeElement (snd (handleClick node_B (sample_group\<lparr>disabled := True\<rparr>))) = Some 3 \<and>
   emitted (snd (handleClick node_B (sample_group\<lparr>disabled := True\<rparr>))) = []"
proof -
  have d: "disabled (sample_group\<lparr>disabled := True\<rparr>)" by simp
  have n: "\<not> strict_eq (modelValue (sample_group\<lparr>disabled := True\<rparr>)) (props_value node_B)"
    by (simp add: sample_group_def node_B_def)
  have r: "optionRef node_B = Some 3" by (simp add: node_B_def)
  have f: "3 \<in> focusable (sample_group\<lparr>disabled := True\<rparr>)" by (simp add: sample_group_def)
  have m: "emitted (sample_group\<lparr>disabled := True\<rparr>) = []" by (simp add: sample_group_def)
  from handleClick_disabled[OF d n r f] d n r f m show ?thesis by simp
qed

section \<open>The roving tab stop\<close>

lemma strict_eq_Undefined: "strict_eq v Undefined \<longleftrightarrow> v = Undefined"
  by (cases v) simp_all

lemma tab_stops_filter:
  "tab_stops g =
     filter (\<lambda>option. checked g (propsRef option) \<or>
                       (modelValue g = Undefined \<and> firstRadio g (option_id option))) (options g)"
  unfolding tab_stops_def tabIndex_def
  by (rule filter_cong) (auto simp: strict_eq_Undefined)

lemma filter_empty_sub:
  "filter P xs = [] \<Longrightarrow> filter (\<lambda>x. P x \<or> Q x) xs = filter Q xs"
  by (induction xs) (auto split: if_splits)

lemma filter_first_only:
  "distinct (map f (x # xs)) \<Longrightarrow> filter (\<lambda>y. f x = f y) (x # xs) = [x]"
  by (auto simp: filter_empty_conv)

lemma scan_sample:
  "orderMap (querySelectorAll sample_container) =
     [''headlessui-radiogroup-option-2'' \<mapsto> 0, ''headlessui-radiogroup-option-3'' \<mapsto> 1,
      ''headlessui-radiogroup-option-4'' \<mapsto> 2]"
  by (simp add: orderMap_def querySelectorAll_def sample_container_def matches_option_id_def
      getAttribute_def starts_with_def option_prefix_def element_id_def enumerate_eq_zip upt_rec numeral_2_eq_2)

text \<open>
  C4, as the code has it. An option's \<open>tabIndex\<close> is \<open>0\<close> exactly when the option
  is checked, or the bound value is \<open>undefined\<close> and the option's id is the id of the
  first option of the list; it is \<open>-1\<close> otherwise. So when exactly one
  registered option is checked, and the bound value is not \<open>undefined\<close> or that option
  is the first of the list, it is the only Tab stop. When no option is checked, the bound
  value is \<open>undefined\<close> and the list is not empty, the first option is the only Tab stop
  (ids being unique). When no option is checked and the bound value is not \<open>undefined\<close>,
  there is no Tab stop at all.
\<close>

theorem tabIndex_roving:
  "(\<forall>this_id v.
      tabIndex g this_id v =
        (if strict_eq (modelValue g) v \<or>
            (modelValue g = Undefined \<and>
             (\<exists>first others. options g = first # others \<and> option_id first = this_id))
         then 0 else - 1)) \<and>
   (\<forall>option. (option \<in> set (tab_stops g)) =
      (option \<in> set (options g) \<and> tabIndex g (option_id option) (propsRef option) = 0)) \<and>
   (\<forall>option. (option \<in> set (checked_options g)) =
      (option \<in> set (options g) \<and> strict_eq (modelValue g) (propsRef option))) \<and>
   (checked_options g = [chosen] \<and> modelValue g \<noteq> Undefined \<longrightarrow> tab_stops g = [chosen]) \<and>
   (distinct (map option_id (options g)) \<and> checked_options g = [chosen] \<and>
      options g = chosen # others \<longrightarrow> tab_stops g = [chosen]) \<and>
   (distinct (map option_id (options g)) \<and> checked_options g = [] \<and>
      modelValue g = Undefined \<and> options g = first # others \<longrightarrow> tab_stops g = [first]) \<and>
   (checked_options g = [] \<and> modelValue g \<noteq> Undefined \<longrightarrow> tab_stops g = [])"
proof -
  have a: "\<forall>this_id v.
      tabIndex g this_id v =
        (if strict_eq (modelValue g) v \<or>
            (modelValue g = Undefined \<and>
             (\<exists>first others. options g = first # others \<and> option_id first = this_id))
         then 0 else - 1)"
    by (cases "options g") (simp_all add: tabIndex_def checked_def firstRadio_def strict_eq_Undefined)
  have m: "\<forall>option. (option \<in> set (tab_stops g)) =
      (option \<in> set (options g) \<and> tabIndex g (option_id option) (propsRef option) = 0)"
    by (auto simp: tab_stops_def)
  have n: "\<forall>option. (option \<in> set (checked_options g)) =
      (option \<in> set (options g) \<and> strict_eq (modelValue g) (propsRef option))"
    by (auto simp: checked_options_def checked_def)
  have b: "tab_stops g = checked_options g" if "modelValue g \<noteq> Undefined"
    using that by (simp add: tab_stops_filter checked_options_def)
  have c: "tab_stops g = [first]"
    if d: "distinct (map option_id (options g))" and e: "checked_options g = []"
      and u: "modelValue g = Undefined" and o: "options g = first # others" for first others
  proof -
    have "tab_stops g = filter (\<lambda>option. firstRadio g (option_id option)) (options g)"
      using e u unfolding tab_stops_filter checked_options_def
      by (simp add: filter_empty_sub)
    also have "\<dots> = filter (\<lambda>option. option_id first = option_id option) (first # others)"
      using o by (simp add: firstRadio_def)
    also have "\<dots> = [first]"
      using d o filter_first_only[of option_id first others] by simp
    finally show ?thesis .
  qed
  have d: "tab_stops g = [chosen]"
    if d: "distinct (map option_id (options g))" and e: "checked_options g = [chosen]"
      and o: "options g = chosen # others"
  proof -
    have hd: "checked g (propsRef chosen)"
      using e o unfolding checked_options_def
      by (metis (mono_tags, lifting) filter_eq_Cons_iff)
    with e o have rest: "filter (\<lambda>option. checked g (propsRef option)) others = []"
      by (simp add: checked_options_def)
    have nf: "\<not> firstRadio g (option_id x)" if "x \<in> set others" for x
      using that d o by (auto simp: firstRadio_def)
    have "filter (\<lambda>option. checked g (propsRef option) \<or>
                       (modelValue g = Undefined \<and> firstRadio g (option_id option))) others = []"
      using rest nf by (auto simp: filter_empty_conv)
    with hd o show ?thesis by (simp add: tab_stops_filter)
  qed
  show ?thesis
    apply (intro conjI)
    subgoal by (rule a)
    subgoal by (rule m)
    subgoal by (rule n)
    subgoal using b by simp
    subgoal using d by blast
    subgoal using c by blast
    subgoal using b by simp
    done
qed

theorem tabIndex_roving_witness:
  "tab_stops (sample_group\<lparr>modelValue := Str ''b''\<rparr>) = [option_B] \<and>
   tab_stops (sample_group\<lparr>modelValue := Str ''a''\<rparr>) = [option_A] \<and>
   tab_stops sample_group = [option_A] \<and>
   tab_stops unmatched_group = [] \<and>
   tabIndex sample_group (option_id option_A) (propsRef option_A) = 0 \<and>
   tabIndex sample_group (option_id option_B) (propsRef option_B) = - 1 \<and>
   tabIndex unmatched_group (option_id option_A) (propsRef option_A) = - 1 \<and>
   tabIndex twin_group (option_id option_A2) (propsRef option_A2) = 0"
proof -
  have o: "options sample_group = option_A # [option_B, option_C]"
    by (simp add: sample_group_def)
  have d: "distinct (map option_id (options sample_group))"
    by (simp add: o option_A_def option_B_def option_C_def)
  have u: "modelValue sample_group = Undefined" by (simp add: sample_group_def)
  have c0: "checked_options sample_group = []"
    by (simp add: checked_options_def checked_def u o option_A_def option_B_def option_C_def)
  let ?gb = "sample_group\<lparr>modelValue := Str ''b''\<rparr>"
  have cb: "checked_options ?gb = [option_B] \<and> modelValue ?gb \<noteq> Undefined"
    by (simp add: checked_options_def checked_def o option_A_def option_B_def option_C_def)
  let ?ga = "sample_group\<lparr>modelValue := Str ''a''\<rparr>"
  have ca: "distinct (map option_id (options ?ga)) \<and> checked_options ?ga = [option_A] \<and>
            options ?ga = option_A # [option_B, option_C]"
    using d by (simp add: checked_options_def checked_def o option_A_def option_B_def option_C_def)
  have cz: "checked_options unmatched_group = [] \<and> modelValue unmatched_group \<noteq> Undefined"
    by (simp add: unmatched_group_def checked_options_def checked_def o option_A_def option_B_def option_C_def)
  have m: "option_B \<in> set (options sample_group)" by (simp add: o)
  have 1: "tab_stops ?gb = [option_B]"
    using tabIndex_roving[of ?gb option_B] cb by blast
  have 2: "tab_stops ?ga = [option_A]"
    using tabIndex_roving[of ?ga option_A "[option_B, option_C]"] ca by blast
  have 3: "tab_stops sample_group = [option_A]"
    using tabIndex_roving[of sample_group _ "[option_B, option_C]" option_A] d u c0 o by blast
  have 4: "tab_stops unmatched_group = []"
    using tabIndex_roving[of unmatched_group] cz by blast
  have 5: "tabIndex sample_group (option_id option_A) (propsRef option_A) = 0"
    using tabIndex_roving[of sample_group] by (simp add: u o)
  have 6: "tabIndex sample_group (option_id option_B) (propsRef option_B) = - 1"
    using tabIndex_roving[of sample_group]
    by (simp add: u o option_A_def option_B_def)
  have 7: "tabIndex unmatched_group (option_id option_A) (propsRef option_A) = - 1"
    using tabIndex_roving[of unmatched_group]
    by (simp add: unmatched_group_def option_A_def)
  have 8: "tabIndex twin_group (option_id option_A2) (propsRef option_A2) = 0"
    using tabIndex_roving[of twin_group]
    by (simp add: twin_group_def option_A2_def)
  from 1 2 3 4 5 6 7 8 show ?thesis by blast
qed

text \<open>
  C4 as stated fails. Mounting A, B and C in a group bound to a value none of them has
  gives a group without any Tab stop; and where two options have the bound value, both
  are Tab stops.
\<close>

theorem tabIndex_counterexample:
  "snd (registerOption option_C (snd (registerOption option_B (snd (registerOption option_A
      (unmatched_group\<lparr>options := []\<rparr>)))))) = unmatched_group \<and>
   tab_stops unmatched_group = [] \<and>
   tab_stops twin_group = [option_A, option_A2]"
proof -
  have "snd (registerOption option_C (snd (registerOption option_B (snd (registerOption option_A
      (unmatched_group\<lparr>options := []\<rparr>)))))) = unmatched_group"
    by (simp add: unmatched_group_def registerOption_def Let_def scan_sample sample_group_def array_sort_def comparator_def
      goes_after_def option_A_def option_B_def option_C_def)
  moreover have "tab_stops unmatched_group = []"
    by (simp add: tab_stops_def tabIndex_def checked_def firstRadio_def unmatched_group_def
        sample_group_def option_A_def option_B_def option_C_def)
  moreover have "tab_stops twin_group = [option_A, option_A2]"
    by (simp add: tab_stops_def tabIndex_def checked_def firstRadio_def twin_group_def
        sample_group_def option_A_def option_A2_def option_C_def)
  ultimately show ?thesis by simp
qed

section \<open>Role normalization\<close>

lemma map_of_update_attr: "map_of (update_attr name v kvs) = (map_of kvs)(name \<mapsto> v)"
  by (induction kvs) (auto simp: fun_eq_iff)

lemma walk_handle: "handle (walk e) = handle e"
  by (cases e) (simp add: setAttribute_def)

lemma walk_node_at:
  "node_at e p = Some d \<Longrightarrow>
   \<exists>d'. node_at (walk e) p = Some d' \<and> handle d' = handle d \<and>
        length (children d') = length (children d) \<and>
        attrs d' =
          (if hasAttribute d ''role'' \<or>
              (p \<noteq> [] \<and> (getAttribute e ''role'' = Some ''radio'' \<or> inside_option e p))
           then attrs d else update_attr ''role'' ''none'' (attrs d))"
proof (induction p arbitrary: e)
  case Nil
  then have de: "d = e" by simp
  obtain h a cs where e: "e = Element h a cs" by (cases e)
  show ?case
    unfolding de e
    by (simp add: acceptNode_def hasAttribute_def getAttribute_def setAttribute_def)
next
  case (Cons i p)
  obtain h a cs where e: "e = Element h a cs" by (cases e)
  from Cons.prems e have i: "i < length cs" and n: "node_at (cs ! i) p = Some d"
    by (auto split: if_splits)
  show ?case
  proof (cases "getAttribute e ''role'' = Some ''radio''")
    case True
    then have "walk e = e" by (simp add: e acceptNode_def)
    with True Cons.prems show ?thesis by simp
  next
    case False
    then have ch: "children (walk e) = map walk cs"
      by (simp add: e acceptNode_def setAttribute_def)
    from Cons.IH[OF n] obtain d' where
      d': "node_at (walk (cs ! i)) p = Some d'" "handle d' = handle d"
          "length (children d') = length (children d)"
          "attrs d' =
          (if hasAttribute d ''role'' \<or>
              (p \<noteq> [] \<and> (getAttribute (cs ! i) ''role'' = Some ''radio'' \<or> inside_option (cs ! i) p))
           then attrs d else update_attr ''role'' ''none'' (attrs d))"
      by blast
    have "node_at (walk e) (i # p) = Some d'"
      using ch i d'(1) by simp
    moreover have "inside_option e (i # p) =
        (p \<noteq> [] \<and> (getAttribute (cs ! i) ''role'' = Some ''radio'' \<or> inside_option (cs ! i) p))"
      using i by (simp add: e)
    ultimately show ?thesis using d'(2,3,4) False by auto
  qed
qed

text \<open>
  C6, as the code has it. The walk keeps the tree's shape and every element's identity.
  A descendant that declares a role keeps its attributes, and so does every descendant
  inside an option element (role \<open>radio\<close>): the walk does not go into an option. Every
  other descendant, also one inside an element that declares a role other than \<open>radio\<close>,
  gets the role \<open>none\<close> and keeps its other attributes.
\<close>

theorem normalizeRoles_effect:
  assumes "node_at container p = Some d" and "p \<noteq> []"
  shows "\<exists>d'. node_at (normalizeRoles container) p = Some d' \<and>
           handle d' = handle d \<and>
           length (children d') = length (children d) \<and>
           (hasAttribute d ''role'' \<longrightarrow> attrs d' = attrs d) \<and>
           (inside_option container p \<longrightarrow> attrs d' = attrs d) \<and>
           (tagged container p d \<longrightarrow>
              (\<forall>name. getAttribute d' name =
                 (if name = ''role'' then Some ''none'' else getAttribute d name)))"
proof -
  from assms obtain i q where p: "p = i # q" by (cases p) auto
  with assms(1) have i: "i < length (children container)"
    and n: "node_at (children container ! i) q = Some d"
    by (auto split: if_splits)
  from walk_node_at[OF n] obtain d' where
    d': "node_at (walk (children container ! i)) q = Some d'" "handle d' = handle d"
        "length (children d') = length (children d)"
        "attrs d' =
          (if hasAttribute d ''role'' \<or>
              (q \<noteq> [] \<and> (getAttribute (children container ! i) ''role'' = Some ''radio'' \<or>
                 inside_option (children container ! i) q))
           then attrs d else update_attr ''role'' ''none'' (attrs d))"
    by blast
  have io: "inside_option container p =
      (q \<noteq> [] \<and> (getAttribute (children container ! i) ''role'' = Some ''radio'' \<or>
                 inside_option (children container ! i) q))"
    using i by (simp add: p)
  have at: "node_at (normalizeRoles container) p = Some d'"
    using i d'(1) by (simp add: p normalizeRoles_def)
  have un: "attrs d' = attrs d" if "hasAttribute d ''role'' \<or> inside_option container p"
    using that d'(4) io by auto
  have tg: "getAttribute d' name = (if name = ''role'' then Some ''none'' else getAttribute d name)"
    if "tagged container p d" for name
  proof -
    from that d'(4) io have "attrs d' = update_attr ''role'' ''none'' (attrs d)"
      by (auto simp: tagged_def)
    then show ?thesis by (simp add: getAttribute_def map_of_update_attr)
  qed
  from at d'(2,3) un tg show ?thesis by blast
qed

theorem normalizeRoles_effect_witness:
  "(\<exists>d'. node_at (normalizeRoles sample_container) [1] = Some d' \<and> handle d' = 2 \<and>
         getAttribute d' ''role'' = Some ''none'') \<and>
   (\<exists>d'. node_at (normalizeRoles sample_container) [0, 0] = Some d' \<and> handle d' = 5 \<and>
         attrs d' = []) \<and>
   (\<exists>d'. node_at (normalizeRoles sample_container) [1, 0] = Some d' \<and> handle d' = 3 \<and>
         attrs d' = [(''id'', ''headlessui-radiogroup-option-3''), (''role'', ''radio'')])"
proof -
  let ?wrapper = "Element 2 []
          [Element 3 [(''id'', ''headlessui-radiogroup-option-3''), (''role'', ''radio'')] []]"
  let ?inner = "Element 5 [] []"
  let ?b = "Element 3 [(''id'', ''headlessui-radiogroup-option-3''), (''role'', ''radio'')] []"
  have w: "node_at sample_container [1] = Some ?wrapper"
    by (simp add: sample_container_def)
  have wt: "tagged sample_container [1] ?wrapper"
    by (simp add: tagged_def hasAttribute_def sample_container_def)
  have n: "node_at sample_container [0, 0] = Some ?inner"
    by (simp add: sample_container_def)
  have ni: "inside_option sample_container [0, 0]"
    by (simp add: sample_container_def getAttribute_def)
  have b: "node_at sample_container [1, 0] = Some ?b"
    by (simp add: sample_container_def)
  have br: "hasAttribute ?b ''role''"
    by (simp add: hasAttribute_def)
  have 1: "\<exists>d'. node_at (normalizeRoles sample_container) [1] = Some d' \<and> handle d' = 2 \<and>
         getAttribute d' ''role'' = Some ''none''"
    using normalizeRoles_effect[OF w] wt by fastforce
  have 2: "\<exists>d'. node_at (normalizeRoles sample_container) [0, 0] = Some d' \<and> handle d' = 5 \<and>
         attrs d' = []"
    using normalizeRoles_effect[OF n] ni by fastforce
  have 3: "\<exists>d'. node_at (normalizeRoles sample_container) [1, 0] = Some d' \<and> handle d' = 3 \<and>
         attrs d' = [(''id'', ''headlessui-radiogroup-option-3''), (''role'', ''radio'')]"
    using normalizeRoles_effect[OF b] br by fastforce
  from 1 2 3 show ?thesis by blast
qed

text \<open>
  C6 as stated fails: the walk does go into an element that declares a role other than
  \<open>radio\<close>, and tags the element without a role that it finds there.
\<close>

theorem normalizeRoles_counterexample:
  "normalizeRoles labelled_container =
     Element 0 [(''role'', ''radiogroup'')]
       [Element 1 [(''role'', ''group'')] [Element 2 [(''role'', ''none'')] []]]"
  by (simp add: normalizeRoles_def labelled_container_def acceptNode_def getAttribute_def
      hasAttribute_def setAttribute_def)

section \<open>Registration order\<close>

lemma index_of_None: "index_of x xs = None \<longleftrightarrow> x \<notin> set xs"
  by (induction xs) auto

lemma index_of_nth: "distinct xs \<Longrightarrow> i < length xs \<Longrightarrow> index_of (xs ! i) xs = Some i"
proof (induction xs arbitrary: i)
  case Nil
  then show ?case by simp
next
  case (Cons x xs)
  show ?case
  proof (cases i)
    case 0
    then show ?thesis by simp
  next
    case (Suc k)
    with Cons.prems have "xs ! k \<noteq> x" by auto
    with Cons Suc show ?thesis by auto
  qed
qed

lemma fold_orderMap:
  fixes F :: "nat \<times> element \<Rightarrow> (string \<rightharpoonup> nat) \<Rightarrow> (string \<rightharpoonup> nat)"
  assumes F: "\<And>index node lookup. F (index, node) lookup = lookup(element_id node \<mapsto> index)"
  shows "distinct (map element_id xs) \<Longrightarrow>
   fold F (enumerate k xs) m s =
     (case index_of s (map element_id xs) of Some i \<Rightarrow> Some (k + i) | None \<Rightarrow> m s)"
proof (induction xs arbitrary: k m)
  case Nil
  then show ?case by simp
next
  case (Cons x xs)
  from Cons.prems have d: "distinct (map element_id xs)" and nx: "element_id x \<notin> set (map element_id xs)"
    by auto
  have step: "fold F (enumerate k (x # xs)) m s =
      (case index_of s (map element_id xs) of Some i \<Rightarrow> Some (Suc k + i)
       | None \<Rightarrow> (m(element_id x \<mapsto> k)) s)"
  proof -
    have e: "fold F (enumerate k (x # xs)) m = fold F (enumerate (Suc k) xs) (m(element_id x \<mapsto> k))"
      by (simp add: F)
    show ?thesis unfolding e by (rule Cons.IH[OF d])
  qed
  show ?case
  proof (cases "s = element_id x")
    case True
    with nx have "index_of s (map element_id xs) = None" by (simp add: index_of_None)
    with True show ?thesis unfolding step by simp
  next
    case False
    then show ?thesis unfolding step
      by (simp split: option.splits)
  qed
qed

lemma orderMap_nth:
  assumes "distinct (map element_id xs)" and "r < length xs"
  shows "orderMap xs (element_id (xs ! r)) = Some r"
proof -
  have "index_of (map element_id xs ! r) (map element_id xs) = Some r"
    using assms by (intro index_of_nth) auto
  moreover have "orderMap xs s = (case index_of s (map element_id xs) of Some i \<Rightarrow> Some (0 + i) | None \<Rightarrow> None)" for s
    unfolding orderMap_def using assms(1) by (intro fold_orderMap) auto
  ultimately show ?thesis using assms(2) by simp
qed

lemma mset_insert_sorted: "mset (insert_sorted cmp x ys) = add_mset x (mset ys)"
  by (induction ys) auto

lemma mset_array_sort: "mset (array_sort cmp xs) = mset xs"
  by (induction xs) (auto simp: array_sort_def mset_insert_sorted)

lemma set_array_sort: "set (array_sort cmp xs) = set xs"
  by (metis mset_array_sort set_mset_mset)

lemma sorted_insert_sorted:
  assumes "\<forall>y \<in> set ys. goes_after (cmp x y) \<longleftrightarrow> k y < (k x :: nat)"
    and "sorted (map k ys)"
  shows "sorted (map k (insert_sorted cmp x ys))"
  using assms
proof (induction ys)
  case Nil
  then show ?case by simp
next
  case (Cons y ys)
  have s: "set (insert_sorted cmp x ys) = insert x (set ys)"
    by (metis mset_insert_sorted set_mset_add_mset_insert set_mset_mset)
  from Cons show ?case by (auto simp: s)
qed

lemma sorted_array_sort:
  assumes "\<forall>x \<in> set xs. \<forall>y \<in> set xs. goes_after (cmp x y) \<longleftrightarrow> k y < (k x :: nat)"
  shows "sorted (map k (array_sort cmp xs))"
  using assms
proof (induction xs)
  case Nil
  then show ?case by (simp add: array_sort_def)
next
  case (Cons x xs)
  have ih: "sorted (map k (array_sort cmp xs))" using Cons by simp
  have "\<forall>y \<in> set (array_sort cmp xs). goes_after (cmp x y) \<longleftrightarrow> k y < k x"
    using Cons.prems by (simp add: set_array_sort)
  from sorted_insert_sorted[of "array_sort cmp xs" cmp x k, OF this ih] show ?case
    by (simp add: array_sort_def)
qed

lemma filter_keeps_order:
  assumes "r1 < r2" and "r2 < length (filter P xs)"
  shows "\<exists>i j. i < j \<and> j < length xs \<and> xs ! i = filter P xs ! r1 \<and> xs ! j = filter P xs ! r2"
proof -
  have "sorted_wrt (\<lambda>a b. \<exists>i j. i < j \<and> j < length xs \<and> xs ! i = a \<and> xs ! j = b) xs"
    by (auto simp: sorted_wrt_iff_nth_less)
  then have "sorted_wrt (\<lambda>a b. \<exists>i j. i < j \<and> j < length xs \<and> xs ! i = a \<and> xs ! j = b) (filter P xs)"
    by (rule sorted_wrt_filter)
  with assms show ?thesis by (auto simp: sorted_wrt_iff_nth_less)
qed

lemma rendered_rank:
  assumes wf: "well_formed c" and r: "rendered c option"
  shows "\<exists>r i. r < length (querySelectorAll c) \<and> i < length (descendants c) \<and>
           orderMap (querySelectorAll c) (option_id option) = Some r \<and>
           querySelectorAll c ! r = descendants c ! i \<and>
           document_position c option = Some i"
proof -
  let ?ds = "descendants c" and ?sc = "querySelectorAll c"
  from r obtain node where n: "node \<in> set ?ds" "element option = Some (handle node)"
      "getAttribute node ''id'' = Some (option_id option)"
      "starts_with option_prefix (option_id option)"
    by (auto simp: rendered_def)
  from n(1) obtain i where i: "i < length ?ds" "?ds ! i = node"
    by (auto simp: in_set_conv_nth)
  from n have "node \<in> set ?sc"
    by (simp add: querySelectorAll_def matches_option_id_def)
  then obtain r where r: "r < length ?sc" "?sc ! r = node"
    by (auto simp: in_set_conv_nth)
  have id: "element_id node = option_id option"
    using n(3) by (simp add: element_id_def)
  from wf have d: "distinct (map element_id ?sc)" by (simp add: well_formed_def)
  have rank: "orderMap ?sc (option_id option) = Some r"
    using orderMap_nth[OF d r(1)] r(2) id by simp
  from wf have dh: "distinct (map (\<lambda>node. Some (handle node)) ?ds)"
    by (simp add: well_formed_def distinct_map inj_on_def)
  have "index_of (map (\<lambda>node. Some (handle node)) ?ds ! i) (map (\<lambda>node. Some (handle node)) ?ds) = Some i"
    using dh i(1) by (intro index_of_nth) auto
  then have pos: "document_position c option = Some i"
    using i n(2) by (simp add: document_position_def)
  from r i rank pos show ?thesis by auto
qed

lemma rank_position:
  assumes wf: "well_formed c"
    and a: "r1 < length (querySelectorAll c)" "i1 < length (descendants c)"
       "querySelectorAll c ! r1 = descendants c ! i1"
    and z: "r2 < length (querySelectorAll c)" "i2 < length (descendants c)"
       "querySelectorAll c ! r2 = descendants c ! i2"
    and le: "r1 \<le> r2"
  shows "i1 \<le> i2"
proof -
  from wf have d: "distinct (descendants c)"
    by (auto simp: well_formed_def distinct_map)
  show ?thesis
  proof (cases "r1 = r2")
    case True
    with a z have "descendants c ! i1 = descendants c ! i2" by simp
    with d a(2) z(2) have "i1 = i2" by (simp add: nth_eq_iff_index_eq)
    then show ?thesis by simp
  next
    case False
    with le have "r1 < r2" by simp
    from filter_keeps_order[OF this, of matches_option_id "descendants c"] z(1)
    obtain i j where ij: "i < j" "j < length (descendants c)"
        "descendants c ! i = querySelectorAll c ! r1" "descendants c ! j = querySelectorAll c ! r2"
      by (auto simp: querySelectorAll_def)
    with a z d have "i = i1" "j = i2" by (auto simp: nth_eq_iff_index_eq)
    with ij(1) show ?thesis by simp
  qed
qed

lemma registerOption_sorts:
  assumes c: "radioGroupRef g = Some c" and wf: "well_formed c"
    and old: "\<forall>option \<in> set (options g). rendered c option" and new: "rendered c action"
  shows "\<exists>radios. registerOption action g = (None, g\<lparr>options := radios\<rparr>) \<and>
           mset radios = add_mset action (mset (options g)) \<and>
           in_document_order c radios"
proof -
  let ?lookup = "orderMap (querySelectorAll c)"
  let ?k = "\<lambda>option. the (?lookup (option_id option))"
  let ?xs = "options g @ [action]"
  let ?radios = "array_sort (comparator ?lookup) ?xs"
  have all: "\<forall>option \<in> set ?xs. rendered c option" using old new by simp
  have cmp: "goes_after (comparator ?lookup a z) \<longleftrightarrow> ?k z < ?k a"
    if "a \<in> set ?xs" "z \<in> set ?xs" for a z
  proof -
    from that all rendered_rank[OF wf] obtain ra rz where
      "?lookup (option_id a) = Some ra" "?lookup (option_id z) = Some rz" by blast
    then show ?thesis by (simp add: comparator_def goes_after_def)
  qed
  then have "sorted (map ?k ?radios)"
    by (intro sorted_array_sort) blast
  then have sk: "sorted_wrt (\<lambda>a z. ?k a \<le> ?k z) ?radios"
    by (simp add: sorted_map)
  have "in_document_order c ?radios"
    unfolding in_document_order_def
  proof (rule sorted_wrt_mono_rel[OF _ sk])
    fix a z
    assume "a \<in> set ?radios" "z \<in> set ?radios" and le: "?k a \<le> ?k z"
    then have a: "rendered c a" and z: "rendered c z"
      using all by (auto simp: set_array_sort)
    from rendered_rank[OF wf a] obtain ra ia where
      ra: "ra < length (querySelectorAll c)" "ia < length (descendants c)"
        "?lookup (option_id a) = Some ra" "querySelectorAll c ! ra = descendants c ! ia"
        "document_position c a = Some ia" by blast
    from rendered_rank[OF wf z] obtain rz iz where
      rz: "rz < length (querySelectorAll c)" "iz < length (descendants c)"
        "?lookup (option_id z) = Some rz" "querySelectorAll c ! rz = descendants c ! iz"
        "document_position c z = Some iz" by blast
    from le ra(3) rz(3) have "ra \<le> rz" by simp
    from rank_position[OF wf ra(1,2,4) rz(1,2,4) this] have "ia \<le> iz" .
    with ra(5) rz(5)
    show "\<exists>i j. document_position c a = Some i \<and> document_position c z = Some j \<and> i \<le> j"
      by simp
  qed
  moreover have "mset ?radios = add_mset action (mset (options g))"
    by (simp add: mset_array_sort)
  moreover have "registerOption action g = (None, g\<lparr>options := ?radios\<rparr>)"
    using c by (simp add: registerOption_def)
  ultimately show ?thesis by blast
qed

lemma calls_rendered_set:
  "set xs = set ys \<Longrightarrow> calls_rendered xs calls = calls_rendered ys calls"
proof (induction calls arbitrary: xs ys)
  case Nil
  then show ?case by simp
next
  case (Cons call calls)
  obtain c a where call: "call = (c, a)" by (cases call)
  from Cons.prems have "set (a # xs) = set (a # ys)" by simp
  from Cons.IH[OF this] Cons.prems show ?case
    by (simp add: call list_all_iff)
qed

lemma calls_rendered_prefix:
  "calls_rendered xs (calls @ later) \<Longrightarrow> calls_rendered xs calls"
  by (induction calls arbitrary: xs) auto

lemma register_calls_sorts:
  "calls_rendered (options g) (calls @ [(c, a)]) \<Longrightarrow>
   \<exists>radios. register_calls (calls @ [(c, a)]) g =
               (None, g\<lparr>radioGroupRef := Some c, options := radios\<rparr>) \<and>
            mset radios = mset (options g) + mset (map snd calls) + {#a#} \<and>
            in_document_order c radios"
proof (induction calls arbitrary: g)
  case Nil
  let ?g = "g\<lparr>radioGroupRef := Some c\<rparr>"
  from Nil have wf: "well_formed c" and old: "\<forall>option \<in> set (options ?g). rendered c option"
    and new: "rendered c a"
    by (simp_all add: list_all_iff)
  have "radioGroupRef ?g = Some c" by simp
  from registerOption_sorts[OF this wf old new] obtain radios where
    "registerOption a ?g = (None, ?g\<lparr>options := radios\<rparr>)"
    "mset radios = add_mset a (mset (options ?g))" "in_document_order c radios"
    by auto
  then show ?case by auto
next
  case (Cons call calls)
  obtain c1 a1 where call: "call = (c1, a1)" by (cases call)
  let ?g = "g\<lparr>radioGroupRef := Some c1\<rparr>"
  from Cons.prems call have wf: "well_formed c1"
    and old: "\<forall>option \<in> set (options ?g). rendered c1 option" and new: "rendered c1 a1"
    and rest: "calls_rendered (a1 # options g) (calls @ [(c, a)])"
    by (simp_all add: list_all_iff)
  have "radioGroupRef ?g = Some c1" by simp
  from registerOption_sorts[OF this wf old new] obtain r1 where
    r1: "registerOption a1 ?g = (None, ?g\<lparr>options := r1\<rparr>)"
    "mset r1 = add_mset a1 (mset (options ?g))"
    by auto
  let ?g1 = "?g\<lparr>options := r1\<rparr>"
  from r1(2) have "set r1 = set (a1 # options g)"
    by (metis group.select_convs(4) group.surjective group.update_convs(3) mset.simps(2) mset_eq_setD)
  from calls_rendered_set[OF this] rest have "calls_rendered (options ?g1) (calls @ [(c, a)])"
    by simp
  from Cons.IH[OF this] obtain radios where
    radios: "register_calls (calls @ [(c, a)]) ?g1 =
               (None, ?g1\<lparr>radioGroupRef := Some c, options := radios\<rparr>)"
      "mset radios = mset (options ?g1) + mset (map snd calls) + {#a#}"
      "in_document_order c radios"
    by blast
  have "register_calls ((call # calls) @ [(c, a)]) g =
          (None, g\<lparr>radioGroupRef := Some c, options := radios\<rparr>)"
    using r1(1) radios(1) by (simp add: call)
  moreover have "mset radios = mset (options g) + mset (map snd (call # calls)) + {#a#}"
    using radios(2) r1(2) by (simp add: call)
  ultimately show ?case using radios(3) by blast
qed

text \<open>
  Where the order holds. Take any run of \<open>registerOption\<close> calls, in any order, each
  made while the container is well formed and renders the options registered so far and
  the new one. After each call of the run no error was thrown, the options list holds the
  options it held before the run and the ones registered since, and it is sorted by the
  document position that the options' elements have in the container of that call.
\<close>

lemma register_calls_document_order:
  assumes "calls_rendered (options g) calls" and "n < length calls"
  shows "\<exists>radios.
           register_calls (take (Suc n) calls) g =
             (None, g\<lparr>radioGroupRef := Some (fst (calls ! n)), options := radios\<rparr>) \<and>
           mset radios = mset (options g) + mset (map snd (take (Suc n) calls)) \<and>
           in_document_order (fst (calls ! n)) radios"
proof -
  obtain c a where ca: "calls ! n = (c, a)" by (cases "calls ! n")
  from assms(2) have t: "take (Suc n) calls = take n calls @ [(c, a)]"
    by (simp add: take_Suc_conv_app_nth ca)
  have "calls = take (Suc n) calls @ drop (Suc n) calls" by simp
  with assms(1) have "calls_rendered (options g) (take (Suc n) calls)"
    by (metis calls_rendered_prefix)
  with t have "calls_rendered (options g) (take n calls @ [(c, a)])" by simp
  from register_calls_sorts[OF this] show ?thesis
    by (simp add: t ca)
qed

lemma descendants_sample:
  "descendants sample_container =
     [Element 1 [(''id'', ''headlessui-radiogroup-option-2''), (''role'', ''radio'')]
          [Element 5 [] []],
      Element 5 [] [],
      Element 2 []
          [Element 3 [(''id'', ''headlessui-radiogroup-option-3''), (''role'', ''radio'')] []],
      Element 3 [(''id'', ''headlessui-radiogroup-option-3''), (''role'', ''radio'')] [],
      Element 4 [(''id'', ''headlessui-radiogroup-option-4''), (''role'', ''radio'')] []]"
  by (simp add: sample_container_def)

lemma well_formed_sample: "well_formed sample_container"
  by (simp add: well_formed_def querySelectorAll_def descendants_sample matches_option_id_def
      getAttribute_def starts_with_def option_prefix_def element_id_def)

lemma rendered_sample:
  "rendered sample_container option_A \<and> rendered sample_container option_B \<and>
   rendered sample_container option_C"
  by (simp add: rendered_def descendants_sample getAttribute_def starts_with_def option_prefix_def
      option_A_def option_B_def option_C_def)

lemma register_calls_reversed_mount:
  "calls_rendered (options (sample_group\<lparr>options := []\<rparr>)) reversed_mount \<and>
   (\<exists>radios. register_calls reversed_mount (sample_group\<lparr>options := []\<rparr>) =
                (None, sample_group\<lparr>options := radios\<rparr>) \<and>
             mset radios = {#option_C, option_A, option_B#} \<and>
             in_document_order sample_container radios) \<and>
   register_calls reversed_mount (sample_group\<lparr>options := []\<rparr>) = (None, sample_group)"
proof -
  let ?g = "sample_group\<lparr>options := []\<rparr>"
  have r: "calls_rendered (options ?g) reversed_mount"
    by (simp add: reversed_mount_def well_formed_sample rendered_sample)
  have n: "2 < length reversed_mount" by (simp add: reversed_mount_def)
  have t: "take (Suc 2) reversed_mount = reversed_mount" by (simp add: reversed_mount_def)
  have c: "fst (reversed_mount ! 2) = sample_container" by (simp add: reversed_mount_def)
  have s: "?g\<lparr>radioGroupRef := Some sample_container, options := radios\<rparr> =
           sample_group\<lparr>options := radios\<rparr>" for radios
    by (simp add: sample_group_def)
  have m: "mset (options ?g) + mset (map snd reversed_mount) = {#option_C, option_A, option_B#}"
    by (simp add: reversed_mount_def)
  have e: "register_calls reversed_mount ?g = (None, sample_group)"
    by (simp add: reversed_mount_def registerOption_def Let_def scan_sample sample_group_def
        array_sort_def comparator_def goes_after_def option_A_def option_B_def option_C_def)
  from register_calls_document_order[OF r n] have
    "\<exists>radios. register_calls reversed_mount ?g = (None, sample_group\<lparr>options := radios\<rparr>) \<and>
             mset radios = {#option_C, option_A, option_B#} \<and>
             in_document_order sample_container radios"
    unfolding t c s m .
  with r e show ?thesis by blast
qed

lemma descendants_stale:
  "map (\<lambda>node. Some (handle node)) (descendants stale_container) =
     [Some 6, Some 1, Some 5, Some 2, Some 4]"
  by (simp add: stale_container_def)

lemma scan_stale:
  "orderMap (querySelectorAll stale_container) =
     [''headlessui-radiogroup-option-5'' \<mapsto> 0, ''headlessui-radiogroup-option-2'' \<mapsto> 1,
      ''headlessui-radiogroup-option-4'' \<mapsto> 2]"
  by (simp add: orderMap_def querySelectorAll_def stale_container_def matches_option_id_def
      getAttribute_def starts_with_def option_prefix_def element_id_def enumerate_eq_zip upt_rec
      numeral_2_eq_2)

text \<open>
  C3 says that after each call of \<open>registerOption\<close> the options list is sorted by the
  document position of the registered elements. The code does not do that when a
  registered option is missing from the scan. With A, B and C registered, B's element
  removed and D's element rendered first, the scan ranks D, A and C only; every
  comparison with B gives \<open>NaN\<close>, and registering D leaves the list as A, B, D, C.
  Unregistering B then leaves A, D, C, while the elements stand in the order D, A, C
  in the document: the list is out of document order, with or without B.
\<close>

theorem registerOption_stale_order:
  "registerOption option_D stale_group =
     (None, stale_group\<lparr>options := [option_A, option_B, option_D, option_C]\<rparr>) \<and>
   unregisterOption (option_id option_B)
       (stale_group\<lparr>options := [option_A, option_B, option_D, option_C]\<rparr>) =
     stale_group\<lparr>options := [option_A, option_D, option_C]\<rparr> \<and>
   document_position stale_container option_D = Some 0 \<and>
   document_position stale_container option_A = Some 1 \<and>
   document_position stale_container option_C = Some 4 \<and>
   document_position stale_container option_B = None \<and>
   \<not> in_document_order stale_container [option_A, option_B, option_D, option_C] \<and>
   \<not> in_document_order stale_container [option_A, option_D, option_C]"
proof -
  have r: "registerOption option_D stale_group =
     (None, stale_group\<lparr>options := [option_A, option_B, option_D, option_C]\<rparr>)"
    by (simp add: registerOption_def Let_def stale_group_def scan_stale sample_group_def
        array_sort_def comparator_def goes_after_def
        option_A_def option_B_def option_C_def option_D_def)
  have u: "unregisterOption (option_id option_B)
       (stale_group\<lparr>options := [option_A, option_B, option_D, option_C]\<rparr>) =
     stale_group\<lparr>options := [option_A, option_D, option_C]\<rparr>"
    by (simp add: unregisterOption_def splice1_def Let_def
        option_A_def option_B_def option_C_def option_D_def)
  have d: "document_position stale_container option_D = Some 0"
    by (simp add: document_position_def descendants_stale option_D_def)
  have a: "document_position stale_container option_A = Some 1"
    by (simp add: document_position_def descendants_stale option_A_def)
  have c: "document_position stale_container option_C = Some 4"
    by (simp add: document_position_def descendants_stale option_C_def)
  have b: "document_position stale_container option_B = None"
    by (simp add: document_position_def descendants_stale option_B_def)
  have n1: "\<not> in_document_order stale_container [option_A, option_B, option_D, option_C]"
    by (simp add: in_document_order_def a b c d)
  have n2: "\<not> in_document_order stale_container [option_A, option_D, option_C]"
    by (simp add: in_document_order_def a c d)
  from r u d a c b n1 n2 show ?thesis by simp
qed

section \<open>Keyboard navigation\<close>

lemma index_of_Some: "index_of x xs = Some k \<Longrightarrow> k < length xs \<and> xs ! k = x"
proof (induction xs arbitrary: k)
  case Nil
  then show ?case by simp
next
  case (Cons y ys)
  then show ?case by (cases "x = y") auto
qed

lemma length_scan_order: "k < length xs \<Longrightarrow> length (scan_order f k xs) = length xs - 1"
  by (cases f) auto

lemma scan_order_nth:
  assumes "k < length xs" and "1 \<le> d" and "d < length xs"
  shows "scan_order f k xs ! (d - 1) = candidate f k d xs"
proof (cases f)
  case Next_WrapAround
  show ?thesis
  proof (cases "k + d < length xs")
    case True
    then have "d - 1 < length xs - Suc k" and "Suc k + (d - 1) = k + d"
      using assms by simp_all
    with True assms show ?thesis
      by (simp add: Next_WrapAround nth_append)
  next
    case False
    then have m: "(k + d) mod length xs = k + d - length xs"
      using assms by (simp add: mod_if)
    have n: "\<not> d - 1 < length xs - Suc k" and i: "d - 1 - (length xs - Suc k) = k + d - length xs"
      and j: "k + d - length xs < k"
      using False assms by simp_all
    show ?thesis
      using n j assms by (simp add: Next_WrapAround nth_append m i add.commute[of d k])
  qed
next
  case Previous_WrapAround
  show ?thesis
  proof (cases "d \<le> k")
    case True
    then have m: "(k + length xs - d) mod length xs = k - d"
      using assms by (simp add: mod_if)
    have l: "d - 1 < k" and i: "k - Suc (d - 1) = k - d" and j: "k - d < k"
      using True assms by simp_all
    show ?thesis
      using l j assms by (simp add: Previous_WrapAround nth_append rev_nth m i)
  next
    case False
    then have m: "(k + length xs - d) mod length xs = k + length xs - d"
      using assms by simp
    have l: "\<not> d - 1 < k" and u: "d - 1 - k < length xs - Suc k"
      and i: "Suc k + (length xs - Suc k - Suc (d - 1 - k)) = k + length xs - d"
      using False assms by simp_all
    have s: "Suc (k + length xs - Suc d) = k + length xs - d"
      using assms by simp
    show ?thesis
      using l u assms by (simp add: Previous_WrapAround nth_append rev_nth m i s min_def)
  qed
qed

lemma focusIn_moves:
  assumes a: "activeElement g = Some a" and k: "index_of (Some a) els = Some k"
    and d: "1 \<le> d" "d < length els" and e: "eligible g (candidate f k d els)"
    and first: "\<forall>d'. 1 \<le> d' \<and> d' < d \<longrightarrow> \<not> eligible g (candidate f k d' els)"
  shows "focusIn els f g = (Success, g\<lparr>activeElement := candidate f k d els\<rparr>)"
proof -
  from index_of_Some[OF k] have kl: "k < length els" by simp
  let ?ys = "scan_order f k els"
  have l: "d - 1 < length ?ys" using d kl by (simp add: length_scan_order)
  have at: "?ys ! (d - 1) = candidate f k d els"
    using scan_order_nth[OF kl d] .
  have before: "\<not> eligible g (?ys ! i)" if "i < d - 1" for i
  proof -
    from that d have "1 \<le> Suc i" "Suc i < length els" "Suc i < d" by simp_all
    with scan_order_nth[OF kl \<open>1 \<le> Suc i\<close> \<open>Suc i < length els\<close>, of f] first
    show ?thesis by simp
  qed
  have "find (eligible g) ?ys = Some (candidate f k d els)"
    unfolding find_Some_iff using l at e before by auto
  with a k show ?thesis by (simp add: focusIn_def)
qed

lemma focusIn_fails:
  assumes a: "activeElement g = Some a" and k: "index_of (Some a) els = Some k"
    and none: "\<forall>d. 1 \<le> d \<and> d < length els \<longrightarrow> \<not> eligible g (candidate f k d els)"
  shows "focusIn els f g = (Failure, g)"
proof -
  from index_of_Some[OF k] have kl: "k < length els" by simp
  let ?ys = "scan_order f k els"
  have "\<not> eligible g y" if "y \<in> set ?ys" for y
  proof -
    from that obtain j where j: "j < length ?ys" "?ys ! j = y"
      by (auto simp: in_set_conv_nth)
    with kl have "1 \<le> Suc j" "Suc j < length els" by (simp_all add: length_scan_order)
    with scan_order_nth[OF kl this, of f] none j(2) show ?thesis by auto
  qed
  then have "find (eligible g) ?ys = None" by (simp add: find_None_iff)
  with a k show ?thesis by (simp add: focusIn_def)
qed

lemma candidate_in_set:
  "xs \<noteq> [] \<Longrightarrow> candidate f k d xs \<in> set xs"
  by (cases f) simp_all

lemma activeElement_change: "activeElement (change v g) = activeElement g"
  by (simp add: change_def emit_def)

lemma activeOption_Some:
  "activeOption g = Some option \<Longrightarrow> option \<in> set (options g) \<and> element option = activeElement g"
  by (auto simp: activeOption_def find_Some_iff)

lemma activeOption_None:
  "\<forall>option \<in> set (options g). element option \<noteq> activeElement g \<Longrightarrow> activeOption g = None"
  by (simp add: activeOption_def find_None_iff)

lemma change_to_active_focused:
  assumes "entry \<in> set (map element (options g))"
  shows "\<exists>option \<in> set (options g). element option = entry \<and>
           change_to_active (g\<lparr>activeElement := entry\<rparr>) =
             change (propsRef option) (g\<lparr>activeElement := entry\<rparr>)"
proof -
  let ?g = "g\<lparr>activeElement := entry\<rparr>"
  from assms have "activeOption ?g \<noteq> None"
    by (auto simp: activeOption_def find_None_iff)
  then obtain option where o: "activeOption ?g = Some option" by auto
  from activeOption_Some[OF o] have "option \<in> set (options g)" "element option = entry"
    by simp_all
  with o show ?thesis by (auto simp: change_to_active_def)
qed

lemma keydown_arrow:
  assumes "radioGroupRef g = Some container" and "contains container (target event)"
    and "direction (key event) = Some f"
  shows "keydown event g = arrow_key f event g"
  using assms by (cases "key event") (auto simp: keydown_def)

lemma keydown_handled:
  assumes "radioGroupRef g = Some container" and "contains container (target event)"
    and "handled (key event)"
  shows "fst (keydown event g) = event\<lparr>defaultPrevented := True, propagationStopped := True\<rparr>"
  using assms
  by (cases "key event")
     (auto simp: keydown_def arrow_key_def Let_def preventDefault_def stopPropagation_def
           split: prod.splits)

text \<open>
  C2. For a keydown event whose target lies inside the mounted container: every handled
  key (the four arrows and Space) prevents the default and stops propagation; any other
  key changes nothing. Space leaves the focus where it is and calls \<open>change\<close> with the
  value of the option whose element has the focus (and does nothing when no option has
  it). With the focus on the entry at position \<open>k\<close> of the options' elements, Left and
  Up move it to the nearest eligible entry before \<open>k\<close>, going round from the first to
  the last, Right and Down to the nearest eligible one after \<open>k\<close>, going round from the
  last to the first, and \<open>change\<close> is then called with the value of the option that has
  that element; when no other entry is eligible, the state stays as it is.
\<close>

theorem keydown_navigation:
  assumes "radioGroupRef g = Some container" and "contains container (target event)"
  shows
    "(handled (key event) \<longrightarrow>
        fst (keydown event g) = event\<lparr>defaultPrevented := True, propagationStopped := True\<rparr>) \<and>
     (\<not> handled (key event) \<longrightarrow> keydown event g = (event, g)) \<and>
     (key event = Space \<longrightarrow>
        activeElement (snd (keydown event g)) = activeElement g \<and>
        (\<forall>option. activeOption g = Some option \<longrightarrow>
           option \<in> set (options g) \<and> element option = activeElement g \<and>
           snd (keydown event g) = change (propsRef option) g) \<and>
        ((\<forall>option \<in> set (options g). element option \<noteq> activeElement g) \<longrightarrow>
           snd (keydown event g) = g)) \<and>
     (\<forall>f a k d.
        direction (key event) = Some f \<and> activeElement g = Some a \<and>
        index_of (Some a) (map element (options g)) = Some k \<and>
        1 \<le> d \<and> d < length (options g) \<and>
        eligible g (candidate f k d (map element (options g))) \<and>
        (\<forall>d'. 1 \<le> d' \<and> d' < d \<longrightarrow> \<not> eligible g (candidate f k d' (map element (options g))))
        \<longrightarrow>
        activeElement (snd (keydown event g)) = candidate f k d (map element (options g)) \<and>
        (\<exists>option \<in> set (options g).
           element option = candidate f k d (map element (options g)) \<and>
           snd (keydown event g) =
             change (propsRef option)
               (g\<lparr>activeElement := candidate f k d (map element (options g))\<rparr>))) \<and>
     (\<forall>f a k.
        direction (key event) = Some f \<and> activeElement g = Some a \<and>
        index_of (Some a) (map element (options g)) = Some k \<and>
        (\<forall>d. 1 \<le> d \<and> d < length (options g) \<longrightarrow>
             \<not> eligible g (candidate f k d (map element (options g))))
        \<longrightarrow> snd (keydown event g) = g)"
proof -
  let ?els = "map element (options g)"
  have h: "handled (key event) \<longrightarrow>
        fst (keydown event g) = event\<lparr>defaultPrevented := True, propagationStopped := True\<rparr>"
    using keydown_handled[OF assms] by simp
  have u: "\<not> handled (key event) \<longrightarrow> keydown event g = (event, g)"
    using assms by (cases "key event") (auto simp: keydown_def)
  have sp: "snd (keydown event g) = change_to_active g" if "key event = Space"
    using assms that by (simp add: keydown_def)
  have s1: "activeElement (snd (keydown event g)) = activeElement g" if "key event = Space"
    using sp[OF that] by (simp add: change_to_active_def activeElement_change split: option.splits)
  have s2: "option \<in> set (options g) \<and> element option = activeElement g \<and>
           snd (keydown event g) = change (propsRef option) g"
    if "key event = Space" "activeOption g = Some option" for option
    using sp[OF that(1)] activeOption_Some[OF that(2)] that(2) by (simp add: change_to_active_def)
  have s3: "snd (keydown event g) = g"
    if "key event = Space" "\<forall>option \<in> set (options g). element option \<noteq> activeElement g"
    using sp[OF that(1)] activeOption_None[OF that(2)] by (simp add: change_to_active_def)
  have mv: "activeElement (snd (keydown event g)) = candidate f k d ?els \<and>
        (\<exists>option \<in> set (options g).
           element option = candidate f k d ?els \<and>
           snd (keydown event g) =
             change (propsRef option) (g\<lparr>activeElement := candidate f k d ?els\<rparr>))"
    if f: "direction (key event) = Some f" and a: "activeElement g = Some a"
      and k: "index_of (Some a) ?els = Some k" and d: "1 \<le> d" "d < length (options g)"
      and e: "eligible g (candidate f k d ?els)"
      and first: "\<forall>d'. 1 \<le> d' \<and> d' < d \<longrightarrow> \<not> eligible g (candidate f k d' ?els)"
    for f a k d
  proof -
    let ?c = "candidate f k d ?els"
    from d have d': "d < length ?els" and ne: "?els \<noteq> []" by auto
    have fi: "focusIn ?els f g = (Success, g\<lparr>activeElement := ?c\<rparr>)"
      using focusIn_moves[OF a k d(1) d' e first] .
    have kd: "snd (keydown event g) = change_to_active (g\<lparr>activeElement := ?c\<rparr>)"
      using keydown_arrow[OF assms f] fi by (simp add: arrow_key_def)
    from change_to_active_focused[OF candidate_in_set[OF ne, of f k d]] obtain option where
      o: "option \<in> set (options g)" "element option = ?c"
         "change_to_active (g\<lparr>activeElement := ?c\<rparr>) =
            change (propsRef option) (g\<lparr>activeElement := ?c\<rparr>)"
      by blast
    have "activeElement (snd (keydown event g)) = ?c"
      unfolding kd o(3) by (simp add: activeElement_change)
    with o kd show ?thesis by auto
  qed
  have st: "snd (keydown event g) = g"
    if f: "direction (key event) = Some f" and a: "activeElement g = Some a"
      and k: "index_of (Some a) ?els = Some k"
      and none: "\<forall>d. 1 \<le> d \<and> d < length (options g) \<longrightarrow> \<not> eligible g (candidate f k d ?els)"
    for f a k
  proof -
    from none have "\<forall>d. 1 \<le> d \<and> d < length ?els \<longrightarrow> \<not> eligible g (candidate f k d ?els)"
      by simp
    from focusIn_fails[OF a k this] keydown_arrow[OF assms f] show ?thesis
      by (simp add: arrow_key_def)
  qed
  show ?thesis
    apply (intro conjI)
    subgoal by (rule h)
    subgoal by (rule u)
    subgoal using s1 s2 s3 by blast
    subgoal using mv by blast
    subgoal using st by blast
    done
qed

theorem keydown_navigation_witness:
  "radioGroupRef sample_group = Some sample_container \<and>
   contains sample_container (target (sample_event ArrowUp)) \<and>
   fst (keydown (sample_event ArrowUp) sample_group) =
     (sample_event ArrowUp)\<lparr>defaultPrevented := True, propagationStopped := True\<rparr> \<and>
   activeElement (snd (keydown (sample_event ArrowUp) sample_group)) = Some 4 \<and>
   emitted (snd (keydown (sample_event ArrowUp) sample_group)) = [Str ''c''] \<and>
   activeElement (snd (keydown (sample_event ArrowDown) sample_group)) = Some 3 \<and>
   emitted (snd (keydown (sample_event ArrowDown) sample_group)) = [Str ''b''] \<and>
   snd (keydown (sample_event Space) sample_group) = change (Str ''a'') sample_group \<and>
   keydown (sample_event (OtherKey ''Tab'')) sample_group =
     (sample_event (OtherKey ''Tab''), sample_group) \<and>
   snd (keydown (sample_event ArrowDown) lone_group) = lone_group"
proof -
  let ?els = "map element (options sample_group)"
  have els: "?els = [Some 1, Some 3, Some 4]"
    by (simp add: sample_group_def option_A_def option_B_def option_C_def)
  have r: "radioGroupRef sample_group = Some sample_container"
    by (simp add: sample_group_def)
  have c: "contains sample_container (target (sample_event k))" for k
    by (simp add: contains_def sample_event_def sample_container_def)
  have a: "activeElement sample_group = Some 1" by (simp add: sample_group_def)
  have k: "index_of (Some 1) ?els = Some 0" by (simp add: els)
  have l: "length (options sample_group) = 3" by (simp add: sample_group_def)
  have opts: "set (options sample_group) = {option_A, option_B, option_C}"
    by (auto simp: sample_group_def)
  have em: "emitted (change v (sample_group\<lparr>activeElement := e\<rparr>)) =
            (if strict_eq Undefined v then [] else [v])" for v e
    by (simp add: change_def emit_def sample_group_def)
  note nav = keydown_navigation[OF r c]
  have 1: "fst (keydown (sample_event ArrowUp) sample_group) =
     (sample_event ArrowUp)\<lparr>defaultPrevented := True, propagationStopped := True\<rparr>"
    using nav[of ArrowUp] by (simp add: sample_event_def)
  have up: "candidate Previous_WrapAround 0 1 ?els = Some 4" by (simp add: els)
  have eu: "eligible sample_group (Some 4)" by (simp add: eligible_def sample_group_def)
  have "direction (key (sample_event ArrowUp)) = Some Previous_WrapAround \<and>
        activeElement sample_group = Some 1 \<and> index_of (Some 1) ?els = Some 0 \<and>
        1 \<le> (1::nat) \<and> 1 < length (options sample_group) \<and>
        eligible sample_group (candidate Previous_WrapAround 0 1 ?els) \<and>
        (\<forall>d'. 1 \<le> d' \<and> d' < (1::nat) \<longrightarrow>
           \<not> eligible sample_group (candidate Previous_WrapAround 0 d' ?els))"
    using a k l up eu by (simp add: sample_event_def)
  with nav[of ArrowUp] have
    "activeElement (snd (keydown (sample_event ArrowUp) sample_group)) =
       candidate Previous_WrapAround 0 1 ?els \<and>
     (\<exists>option \<in> set (options sample_group).
        element option = candidate Previous_WrapAround 0 1 ?els \<and>
        snd (keydown (sample_event ArrowUp) sample_group) =
          change (propsRef option)
            (sample_group\<lparr>activeElement := candidate Previous_WrapAround 0 1 ?els\<rparr>))"
    by blast
  then have 2: "activeElement (snd (keydown (sample_event ArrowUp) sample_group)) = Some 4"
    and 3: "emitted (snd (keydown (sample_event ArrowUp) sample_group)) = [Str ''c'']"
    unfolding up opts by (auto simp: em option_A_def option_B_def option_C_def)
  have down: "candidate Next_WrapAround 0 1 ?els = Some 3" by (simp add: els)
  have ed: "eligible sample_group (Some 3)" by (simp add: eligible_def sample_group_def)
  have "direction (key (sample_event ArrowDown)) = Some Next_WrapAround \<and>
        activeElement sample_group = Some 1 \<and> index_of (Some 1) ?els = Some 0 \<and>
        1 \<le> (1::nat) \<and> 1 < length (options sample_group) \<and>
        eligible sample_group (candidate Next_WrapAround 0 1 ?els) \<and>
        (\<forall>d'. 1 \<le> d' \<and> d' < (1::nat) \<longrightarrow>
           \<not> eligible sample_group (candidate Next_WrapAround 0 d' ?els))"
    using a k l down ed by (simp add: sample_event_def)
  with nav[of ArrowDown] have
    "activeElement (snd (keydown (sample_event ArrowDown) sample_group)) =
       candidate Next_WrapAround 0 1 ?els \<and>
     (\<exists>option \<in> set (options sample_group).
        element option = candidate Next_WrapAround 0 1 ?els \<and>
        snd (keydown (sample_event ArrowDown) sample_group) =
          change (propsRef option)
            (sample_group\<lparr>activeElement := candidate Next_WrapAround 0 1 ?els\<rparr>))"
    by blast
  then have 4: "activeElement (snd (keydown (sample_event ArrowDown) sample_group)) = Some 3"
    and 5: "emitted (snd (keydown (sample_event ArrowDown) sample_group)) = [Str ''b'']"
    unfolding down opts by (auto simp: em option_A_def option_B_def option_C_def)
  have ao: "activeOption sample_group = Some option_A"
    by (simp add: activeOption_def sample_group_def option_A_def)
  have 6: "snd (keydown (sample_event Space) sample_group) = change (Str ''a'') sample_group"
    using nav[of Space] ao by (simp add: sample_event_def option_A_def)
  have 7: "keydown (sample_event (OtherKey ''Tab'')) sample_group =
     (sample_event (OtherKey ''Tab''), sample_group)"
    using nav[of "OtherKey ''Tab''"] by (simp add: sample_event_def)
  have rl: "radioGroupRef lone_group = Some sample_container"
    by (simp add: lone_group_def sample_group_def)
  have "direction (key (sample_event ArrowDown)) = Some Next_WrapAround \<and>
        activeElement lone_group = Some 1 \<and>
        index_of (Some 1) (map element (options lone_group)) = Some 0 \<and>
        (\<forall>d. 1 \<le> d \<and> d < length (options lone_group) \<longrightarrow>
           \<not> eligible lone_group (candidate Next_WrapAround 0 d (map element (options lone_group))))"
  proof -
    have e: "map element (options lone_group) = [Some 1, Some 3, Some 4]"
      by (simp add: lone_group_def els)
    have "\<not> eligible lone_group (candidate Next_WrapAround 0 d [Some 1, Some 3, Some 4])"
      if "1 \<le> d" "d < 3" for d
    proof -
      from that have "d = 1 \<or> d = 2" by auto
      then show ?thesis by (auto simp: eligible_def lone_group_def)
    qed
    then have n: "\<forall>d. 1 \<le> d \<and> d < length (options lone_group) \<longrightarrow>
           \<not> eligible lone_group (candidate Next_WrapAround 0 d (map element (options lone_group)))"
      unfolding e by (simp add: lone_group_def l)
    have "direction (key (sample_event ArrowDown)) = Some Next_WrapAround"
      by (simp add: sample_event_def)
    moreover have "activeElement lone_group = Some 1" by (simp add: lone_group_def a)
    moreover have "index_of (Some 1) (map element (options lone_group)) = Some 0"
      unfolding e by simp
    ultimately show ?thesis using n by blast
  qed
  with keydown_navigation[OF rl c, of ArrowDown] have 8:
    "snd (keydown (sample_event ArrowDown) lone_group) = lone_group"
    by blast
  from r c[of ArrowUp] 1 2 3 4 5 6 7 8 show ?thesis by simp
qed

end
